theory Spec2Isabelle
  imports Main "HOL-Library.Word" "HOL-Library.Multiset"
begin

section \<open>The schema of \<^verbatim>\<open>01_create_tables.sql\<close>\<close>

text \<open>
  A UUID is a 128-bit value. The column \<^verbatim>\<open>iteration INTEGER\<close> is PostgreSQL's
  \<^verbatim>\<open>int4\<close>: the model keeps it as an \<open>int\<close> and writes the range of the type
  out (\<open>int4\<close>), so that the overflow of \<^verbatim>\<open>MAX(iteration) + 1\<close> is an error of the
  model as it is one of the database.
\<close>

type_synonym uuid = "128 word"

text \<open>\<^verbatim>\<open>CREATE TABLE agents (id UUID PRIMARY KEY DEFAULT uuid_generate_v4(),
  session_id UUID NOT NULL, intent TEXT)\<close>\<close>

record agent =
  id' :: uuid
  session_id :: uuid
  intent :: "string option"

text \<open>\<^verbatim>\<open>CREATE TABLE agent_loops (agent_id UUID NOT NULL REFERENCES agents(id),
  iteration INTEGER NOT NULL, plan_result TEXT, execution_result TEXT,
  PRIMARY KEY (agent_id, iteration))\<close>\<close>

record agent_loop =
  agent_id :: uuid
  iteration :: int
  plan_result :: "string option"
  execution_result :: "string option"

text \<open>
  The row \<^verbatim>\<open>NEW\<close> of an \<^verbatim>\<open>INSERT INTO agent_loops\<close>, as the trigger sees it:
  every column may still be NULL (\<open>None\<close>).
\<close>

record new_row =
  new_agent_id :: "uuid option"
  new_iteration :: "int option"
  new_plan_result :: "string option"
  new_execution_result :: "string option"

text \<open>The row of an \<^verbatim>\<open>INSERT INTO agents\<close>; \<open>None\<close> for \<open>id\<close> takes the default.\<close>

record new_agent =
  new_id :: "uuid option"
  new_session_id :: "uuid option"
  new_intent :: "string option"

record db =
  agents :: "agent list"
  agent_loops :: "agent_loop list"

definition empty_db :: db where
  "empty_db = \<lparr>agents = [], agent_loops = []\<rparr>"

text \<open>The error conditions of PostgreSQL that the schema can raise.\<close>

datatype sql_error =
  numeric_value_out_of_range
  | not_null_violation
  | unique_violation
  | foreign_key_violation

definition int4 :: "int \<Rightarrow> bool" where
  "int4 i = (- 2147483648 \<le> i \<and> i \<le> 2147483647)"

text \<open>Addition of two \<^verbatim>\<open>INTEGER\<close>s: an error when the sum leaves the type.\<close>

definition int4pl :: "int \<Rightarrow> int \<Rightarrow> sql_error + int" where
  "int4pl x y = (if int4 (x + y) then Inr (x + y) else Inl numeric_value_out_of_range)"

text \<open>The aggregate \<^verbatim>\<open>MAX\<close>: NULL over no rows.\<close>

fun sql_max :: "int list \<Rightarrow> int option" where
  "sql_max [] = None"
| "sql_max (x # xs) = (case sql_max xs of None \<Rightarrow> Some x | Some m \<Rightarrow> Some (max x m))"

text \<open>\<^verbatim>\<open>SELECT iteration FROM agent_loops WHERE agent_id = a\<close>, in the table's order.\<close>

definition iterations_of :: "agent_loop list \<Rightarrow> uuid \<Rightarrow> int list" where
  "iterations_of tbl a = map iteration (filter (\<lambda>r. agent_id r = a) tbl)"

text \<open>
  \<^verbatim>\<open>SELECT MAX(iteration) FROM agent_loops WHERE agent_id = NEW.agent_id\<close>: the
  comparison with a NULL \<^verbatim>\<open>NEW.agent_id\<close> selects no row.
\<close>

definition max_iteration :: "agent_loop list \<Rightarrow> uuid option \<Rightarrow> int option" where
  "max_iteration tbl aid =
     (case aid of None \<Rightarrow> None | Some a \<Rightarrow> sql_max (iterations_of tbl a))"

section \<open>The trigger function \<^verbatim>\<open>next_iteration\<close>\<close>

text \<open>
  \<^verbatim>\<open>IF NEW.iteration IS NULL THEN
    SELECT COALESCE(MAX(iteration) + 1, 1) INTO NEW.iteration
    FROM agent_loops WHERE agent_id = NEW.agent_id;
  END IF;
  RETURN NEW;\<close>
\<close>

definition next_iteration :: "agent_loop list \<Rightarrow> new_row \<Rightarrow> sql_error + new_row" where
  "next_iteration tbl NEW =
     (if new_iteration NEW = None then
        (case max_iteration tbl (new_agent_id NEW) of
           None \<Rightarrow> Inr (NEW\<lparr>new_iteration := Some 1\<rparr>)
         | Some m \<Rightarrow>
             (case int4pl m 1 of
                Inl e \<Rightarrow> Inl e
              | Inr v \<Rightarrow> Inr (NEW\<lparr>new_iteration := Some v\<rparr>)))
      else Inr NEW)"

section \<open>\<^verbatim>\<open>INSERT INTO agent_loops\<close>\<close>

text \<open>
  The statement in two phases. \<open>before_insert\<close> is all that happens before the row
  is formed: a supplied \<open>iteration\<close> must be of the column's type, then the trigger
  \<^verbatim>\<open>set_iteration BEFORE INSERT ... FOR EACH ROW\<close> runs \<open>next_iteration\<close> on the
  table as it is. \<open>write_row\<close> is the insertion itself: the \<^verbatim>\<open>NOT NULL\<close> columns,
  the primary key \<^verbatim>\<open>(agent_id, iteration)\<close>, the reference to \<^verbatim>\<open>agents(id)\<close>, in
  the order PostgreSQL checks them (the foreign key is checked after the row is in
  the index), and the row joins the table only when all three pass.
\<close>

definition before_insert :: "db \<Rightarrow> new_row \<Rightarrow> sql_error + new_row" where
  "before_insert s NEW =
     (case new_iteration NEW of
        Some i \<Rightarrow> if int4 i then next_iteration (agent_loops s) NEW
                  else Inl numeric_value_out_of_range
      | None \<Rightarrow> next_iteration (agent_loops s) NEW)"

definition key_exists :: "agent_loop list \<Rightarrow> uuid \<Rightarrow> int \<Rightarrow> bool" where
  "key_exists tbl a i = (filter (\<lambda>r. agent_id r = a \<and> iteration r = i) tbl \<noteq> [])"

definition agent_exists :: "agent list \<Rightarrow> uuid \<Rightarrow> bool" where
  "agent_exists tbl a = (filter (\<lambda>r. id' r = a) tbl \<noteq> [])"

definition write_row :: "db \<Rightarrow> new_row \<Rightarrow> sql_error + (db \<times> agent_loop)" where
  "write_row s NEW =
     (case new_agent_id NEW of
        None \<Rightarrow> Inl not_null_violation
      | Some a \<Rightarrow>
          (case new_iteration NEW of
             None \<Rightarrow> Inl not_null_violation
           | Some i \<Rightarrow>
               if key_exists (agent_loops s) a i then Inl unique_violation
               else if \<not> agent_exists (agents s) a then Inl foreign_key_violation
               else
                 (let r = \<lparr>agent_id = a, iteration = i,
                            plan_result = new_plan_result NEW,
                            execution_result = new_execution_result NEW\<rparr>
                  in Inr (s\<lparr>agent_loops := agent_loops s @ [r]\<rparr>, r))))"

definition insert_agent_loops :: "db \<Rightarrow> new_row \<Rightarrow> sql_error + (db \<times> agent_loop)" where
  "insert_agent_loops s NEW =
     (case before_insert s NEW of
        Inl e \<Rightarrow> Inl e
      | Inr NEW' \<Rightarrow> write_row s NEW')"

text \<open>
  \<^verbatim>\<open>INSERT INTO agents\<close>. \<open>gen\<close> is the value \<^verbatim>\<open>uuid_generate_v4()\<close> returns
  when the default is taken.
\<close>

definition insert_agents :: "db \<Rightarrow> uuid \<Rightarrow> new_agent \<Rightarrow> sql_error + (db \<times> agent)" where
  "insert_agents s gen NEW =
     (let i = (case new_id NEW of None \<Rightarrow> gen | Some v \<Rightarrow> v) in
      case new_session_id NEW of
        None \<Rightarrow> Inl not_null_violation
      | Some sid \<Rightarrow>
          if agent_exists (agents s) i then Inl unique_violation
          else
            (let r = \<lparr>id' = i, session_id = sid, intent = new_intent NEW\<rparr>
             in Inr (s\<lparr>agents := agents s @ [r]\<rparr>, r)))"

text \<open>
  A statement that fails leaves the database as it was. \<open>exec\<close> runs one statement
  and returns the database after it with the statement's outcome; \<open>run\<close> runs a
  sequence of statements, one after the other.
\<close>

datatype statement = Insert_agents uuid new_agent | Insert_agent_loops new_row

datatype outcome = Failed sql_error | Agent_row agent | Loop_row agent_loop

definition exec :: "db \<Rightarrow> statement \<Rightarrow> db \<times> outcome" where
  "exec s st =
     (case st of
        Insert_agents gen NEW \<Rightarrow>
          (case insert_agents s gen NEW of
             Inl e \<Rightarrow> (s, Failed e)
           | Inr (s', r) \<Rightarrow> (s', Agent_row r))
      | Insert_agent_loops NEW \<Rightarrow>
          (case insert_agent_loops s NEW of
             Inl e \<Rightarrow> (s, Failed e)
           | Inr (s', r) \<Rightarrow> (s', Loop_row r)))"

fun run :: "db \<Rightarrow> statement list \<Rightarrow> db \<times> outcome list" where
  "run s [] = (s, [])"
| "run s (st # sts) =
     (let (s', out) = exec s st; (s'', outs) = run s' sts in (s'', out # outs))"

section \<open>Concurrent callers\<close>

text \<open>
  The trigger is \<^verbatim>\<open>BEFORE INSERT ... FOR EACH ROW\<close>: its \<^verbatim>\<open>SELECT MAX(iteration)\<close>
  runs before the row is written, and nothing in \<open>next_iteration\<close> (no lock, no
  \<^verbatim>\<open>FOR UPDATE\<close>) ties the read to the write. So the \<^verbatim>\<open>INSERT\<close>s of concurrent
  callers interleave at this grain: a caller that is \<open>Ready\<close> runs \<open>before_insert\<close>
  on the table as it is and becomes \<open>Triggered\<close>, holding the row the trigger
  returned; a \<open>Triggered\<close> caller runs \<open>write_row\<close> on the table as it is by then
  (the primary-key index decides between two rows of one key) and is \<open>Finished\<close> with
  the stored row or the error. A schedule is the list of the callers' indices in the
  order they move; running the two steps of each caller back to back is the sequential
  execution.
\<close>

datatype call = Ready new_row | Triggered new_row | Finished "sql_error + agent_loop"

definition step :: "nat \<Rightarrow> db \<times> call list \<Rightarrow> db \<times> call list" where
  "step i sys =
     (case sys of (s, cs) \<Rightarrow>
        if i < length cs then
          (case cs ! i of
             Ready NEW \<Rightarrow>
               (case before_insert s NEW of
                  Inl e \<Rightarrow> (s, cs[i := Finished (Inl e)])
                | Inr NEW' \<Rightarrow> (s, cs[i := Triggered NEW']))
           | Triggered NEW' \<Rightarrow>
               (case write_row s NEW' of
                  Inl e \<Rightarrow> (s, cs[i := Finished (Inl e)])
                | Inr (s', r) \<Rightarrow> (s', cs[i := Finished (Inr r)]))
           | Finished res \<Rightarrow> (s, cs))
        else (s, cs))"

fun interleave :: "nat list \<Rightarrow> db \<times> call list \<Rightarrow> db \<times> call list" where
  "interleave [] sys = sys"
| "interleave (i # sched) sys = interleave sched (step i sys)"

definition finished :: "call \<Rightarrow> bool" where
  "finished c = (case c of Finished res \<Rightarrow> True | _ \<Rightarrow> False)"

text \<open>The row a caller has stored, if it has.\<close>

definition stored_row :: "call \<Rightarrow> agent_loop list" where
  "stored_row c = (case c of Finished (Inr r) \<Rightarrow> [r] | _ \<Rightarrow> [])"

definition stored :: "call list \<Rightarrow> agent_loop list" where
  "stored cs = concat (map stored_row cs)"

section \<open>The properties of the ledger\<close>

text \<open>
  The iterations of agent \<open>a\<close> are \<open>{1, ..., N}\<close>, each once; \<open>N\<close> is then the
  number of the agent's rows.
\<close>

definition contiguous :: "agent_loop list \<Rightarrow> uuid \<Rightarrow> bool" where
  "contiguous tbl a =
     (distinct (iterations_of tbl a) \<and>
      set (iterations_of tbl a) = {1..int (length (iterations_of tbl a))})"

text \<open>The value the trigger computes for agent \<open>a\<close>: \<^verbatim>\<open>COALESCE(MAX(iteration) + 1, 1)\<close>.\<close>

definition next_value :: "agent_loop list \<Rightarrow> uuid \<Rightarrow> int" where
  "next_value tbl a = (case sql_max (iterations_of tbl a) of None \<Rightarrow> 1 | Some m \<Rightarrow> m + 1)"

text \<open>A caller that has not started and leaves \<open>iteration\<close> to the trigger.\<close>

definition unassigned_call :: "call \<Rightarrow> bool" where
  "unassigned_call c = (case c of Ready NEW \<Rightarrow> new_iteration NEW = None | _ \<Rightarrow> False)"

text \<open>Such a caller, writing for agent \<open>a\<close>.\<close>

definition record_call :: "uuid \<Rightarrow> call \<Rightarrow> bool" where
  "record_call a c =
     (case c of
        Ready NEW \<Rightarrow> new_agent_id NEW = Some a \<and> new_iteration NEW = None
      | _ \<Rightarrow> False)"

text \<open>A caller that has stored its row or lost to a row of the same key.\<close>

definition stored_or_duplicate :: "call \<Rightarrow> bool" where
  "stored_or_duplicate c =
     (case c of
        Finished (Inr r) \<Rightarrow> True
      | Finished (Inl e) \<Rightarrow> e = unique_violation
      | _ \<Rightarrow> False)"

text \<open>A statement that, if it writes for agent \<open>a\<close>, leaves \<open>iteration\<close> to the trigger.\<close>

definition unassigned_for :: "uuid \<Rightarrow> statement \<Rightarrow> bool" where
  "unassigned_for a st =
     (case st of
        Insert_agent_loops NEW \<Rightarrow> new_agent_id NEW \<noteq> Some a \<or> new_iteration NEW = None
      | Insert_agents gen NEW \<Rightarrow> True)"

text \<open>An outcome that is a stored row of agent \<open>a\<close>.\<close>

definition counts_for :: "uuid \<Rightarrow> outcome \<Rightarrow> bool" where
  "counts_for a out = (case out of Loop_row r \<Rightarrow> agent_id r = a | _ \<Rightarrow> False)"

text \<open>\<^verbatim>\<open>SELECT * FROM agent_loops WHERE agent_id = a AND iteration = i\<close>.\<close>

definition rows_with_key :: "agent_loop list \<Rightarrow> uuid \<Rightarrow> int \<Rightarrow> agent_loop list" where
  "rows_with_key tbl a i = filter (\<lambda>r. agent_id r = a \<and> iteration r = i) tbl"

text \<open>Every row of \<open>agent_loops\<close> refers to a row of \<open>agents\<close>.\<close>

definition references_ok :: "db \<Rightarrow> bool" where
  "references_ok s = list_all (\<lambda>r. agent_exists (agents s) (agent_id r)) (agent_loops s)"

text \<open>
  The scenario used in the examples: one agent, \<open>1\<close>, of session \<open>7\<close>, with the
  intent "buy shoes" and no loop yet; \<open>cycle\<close> is the insert of one plan/execute
  cycle that leaves \<open>iteration\<close> to the trigger.
\<close>

definition shoes_db :: db where
  "shoes_db = \<lparr>agents = [\<lparr>id' = 1, session_id = 7, intent = Some ''buy shoes''\<rparr>],
                agent_loops = []\<rparr>"

definition cycle_row :: "uuid \<Rightarrow> string \<Rightarrow> string \<Rightarrow> new_row" where
  "cycle_row a p e =
     \<lparr>new_agent_id = Some a, new_iteration = None,
      new_plan_result = Some p, new_execution_result = Some e\<rparr>"

definition cycle :: "uuid \<Rightarrow> string \<Rightarrow> string \<Rightarrow> statement" where
  "cycle a p e = Insert_agent_loops (cycle_row a p e)"

text \<open>
  What holds of a caller while the iterations of agent \<open>a\<close> are \<open>1, ..., N\<close> and
  every caller left \<open>iteration\<close> to the trigger: a row the trigger returned for
  \<open>a\<close> carries an iteration between \<open>1\<close> and \<open>N + 1\<close>.
\<close>

definition pending_ok :: "agent_loop list \<Rightarrow> uuid \<Rightarrow> call \<Rightarrow> bool" where
  "pending_ok tbl a c =
     (case c of
        Ready NEW \<Rightarrow> new_iteration NEW = None
      | Triggered NEW' \<Rightarrow>
          new_agent_id NEW' \<noteq> Some a \<or>
          (case new_iteration NEW' of
             None \<Rightarrow> False
           | Some v \<Rightarrow> 1 \<le> v \<and> v \<le> int (length (iterations_of tbl a)) + 1)
      | Finished res \<Rightarrow> True)"

text \<open>
  What holds of a caller while \<open>j\<close> of the callers for agent \<open>a\<close> have stored a
  row, \<open>b\<close> being the value the trigger computed on the table before them: a row
  the trigger returned carries an iteration between \<open>b\<close> and \<open>b + j\<close>, and a
  caller has failed only on the primary key, after some row was stored.
\<close>

definition race_call_ok :: "uuid \<Rightarrow> int \<Rightarrow> nat \<Rightarrow> call \<Rightarrow> bool" where
  "race_call_ok a b j c =
     (case c of
        Ready NEW \<Rightarrow> new_agent_id NEW = Some a \<and> new_iteration NEW = None
      | Triggered NEW' \<Rightarrow>
          new_agent_id NEW' = Some a \<and>
          (case new_iteration NEW' of
             None \<Rightarrow> False
           | Some v \<Rightarrow> b \<le> v \<and> v \<le> b + int j)
      | Finished (Inr r) \<Rightarrow> True
      | Finished (Inl e) \<Rightarrow> e = unique_violation \<and> 1 \<le> j)"

text \<open>
  The database \<open>s\<close> and the callers \<open>cs\<close> after some steps from \<open>s0\<close>: the rows
  \<open>new\<close> have joined the table, all of agent \<open>a\<close>, with the iterations
  \<open>b, b + 1, ...\<close> in the order they were written, and they are the rows the callers
  have stored.
\<close>

definition race_ok :: "db \<Rightarrow> uuid \<Rightarrow> db \<Rightarrow> call list \<Rightarrow> agent_loop list \<Rightarrow> bool" where
  "race_ok s0 a s cs new =
     (agents s = agents s0 \<and>
      agent_loops s = agent_loops s0 @ new \<and>
      list_all (\<lambda>r. agent_id r = a) new \<and>
      map iteration new =
        [next_value (agent_loops s0) a..next_value (agent_loops s0) a + int (length new) - 1] \<and>
      mset (stored cs) = mset new \<and>
      list_all (race_call_ok a (next_value (agent_loops s0) a) (length new)) cs)"

text \<open>The scenario after two cycles of agent \<open>1\<close>.\<close>

definition two_loops_db :: db where
  "two_loops_db =
     shoes_db\<lparr>agent_loops :=
       [\<lparr>agent_id = 1, iteration = 1, plan_result = Some ''plan: click search'',
          execution_result = Some ''clicked search''\<rparr>,
        \<lparr>agent_id = 1, iteration = 2, plan_result = Some ''plan: type query'',
          execution_result = Some ''typed query''\<rparr>]\<rparr>"

section \<open>The web client\<close>

subsection \<open>JSON values and \<^verbatim>\<open>fetch\<close>\<close>

text \<open>
  A parsed JSON value. An object is the list of its members, each key once. A number
  is kept by its integer value: the code only ever asks whether one is zero.
\<close>

datatype json =
  JNull
  | JBool bool
  | JNumber int
  | JString string
  | JArray "json list"
  | JObject "(string \<times> json) list"

text \<open>
  \<^verbatim>\<open>v.k\<close> for a value that is not \<^verbatim>\<open>null\<close>: the member of an object,
  \<^verbatim>\<open>undefined\<close> (\<open>None\<close>) when the object has no such member or the value is not
  an object. On \<^verbatim>\<open>null\<close> the access raises a \<^verbatim>\<open>TypeError\<close>; the callers test
  for \<open>JNull\<close> first.
\<close>

definition property :: "json \<Rightarrow> string \<Rightarrow> json option" where
  "property v k = (case v of JObject kvs \<Rightarrow> map_of kvs k | _ \<Rightarrow> None)"

text \<open>What JavaScript takes for true in \<^verbatim>\<open>v || d\<close>.\<close>

definition truthy :: "json \<Rightarrow> bool" where
  "truthy v =
     (case v of
        JNull \<Rightarrow> False
      | JBool b \<Rightarrow> b
      | JNumber n \<Rightarrow> n \<noteq> 0
      | JString str \<Rightarrow> str \<noteq> []
      | JArray vs \<Rightarrow> True
      | JObject kvs \<Rightarrow> True)"

text \<open>
  What \<^verbatim>\<open>await fetch(...)\<close> followed by \<^verbatim>\<open>await response.json()\<close> can give:
  \<open>Rejected\<close> when \<^verbatim>\<open>fetch\<close> itself throws (the server cannot be reached),
  otherwise the response with its HTTP status and its body, \<open>None\<close> when the body is
  not JSON and \<^verbatim>\<open>response.json()\<close> throws.
\<close>

datatype fetch_result = Rejected | Response nat "json option"

text \<open>\<^verbatim>\<open>response.ok\<close>: the status is in the range 200-299.\<close>

definition ok :: "nat \<Rightarrow> bool" where
  "ok code = (200 \<le> code \<and> code \<le> 299)"

subsection \<open>The route \<^verbatim>\<open>app/api/submitform/route.ts\<close>\<close>

record next_response =
  status :: nat
  body :: json

text \<open>\<^verbatim>\<open>NextResponse.json({ error: 'Something went wrong' }, { status: 500 })\<close>\<close>

definition something_went_wrong :: next_response where
  "something_went_wrong =
     \<lparr>status = 500, body = JObject [(''error'', JString ''Something went wrong'')]\<rparr>"

text \<open>
  The object literal \<^verbatim>\<open>{ sessionId, debuggingUrl, status, title }\<close> as it is
  serialised: a member that is \<^verbatim>\<open>undefined\<close> is left out.
\<close>

definition members :: "string list \<Rightarrow> json \<Rightarrow> (string \<times> json) list" where
  "members ks v =
     concat (map (\<lambda>k. case property v k of None \<Rightarrow> [] | Some x \<Rightarrow> [(k, x)]) ks)"

text \<open>
  \<^verbatim>\<open>POST(req)\<close>. \<open>req\<close> is the request's body as \<^verbatim>\<open>req.json()\<close> parses it,
  \<open>None\<close> when it throws; \<open>execute\<close> is the backend at
  \<^verbatim>\<open>http://localhost:8000/execute\<close>, from the body sent to what \<^verbatim>\<open>fetch\<close> and
  \<^verbatim>\<open>response.json()\<close> give. Everything that throws inside \<^verbatim>\<open>try\<close>, the
  destructuring of \<^verbatim>\<open>null\<close> included, ends in the one \<^verbatim>\<open>catch\<close>. The status of
  the backend's response is never read.
\<close>

definition POST :: "json option \<Rightarrow> (json \<Rightarrow> fetch_result) \<Rightarrow> next_response" where
  "POST req execute =
     (case req of
        None \<Rightarrow> something_went_wrong
      | Some data \<Rightarrow>
          (case execute data of
             Rejected \<Rightarrow> something_went_wrong
           | Response code b \<Rightarrow>
               (case b of
                  None \<Rightarrow> something_went_wrong
                | Some responseData \<Rightarrow>
                    if responseData = JNull then something_went_wrong
                    else
                      \<lparr>status = 200,
                       body = JObject (members [''sessionId'', ''debuggingUrl'',
                                                 ''status'', ''title''] responseData)\<rparr>)))"

text \<open>The paths of \<open>POST\<close> on which something throws.\<close>

definition raises :: "json option \<Rightarrow> (json \<Rightarrow> fetch_result) \<Rightarrow> bool" where
  "raises req execute =
     (case req of
        None \<Rightarrow> True
      | Some data \<Rightarrow>
          (case execute data of
             Rejected \<Rightarrow> True
           | Response code b \<Rightarrow> (case b of None \<Rightarrow> True | Some v \<Rightarrow> v = JNull)))"

subsection \<open>The component \<^verbatim>\<open>Form.tsx\<close>\<close>

text \<open>
  \<^verbatim>\<open>interface requestData { url: string; intent: string; context: string }\<close>. The
  fields \<open>intent\<close> and \<open>context\<close> carry a prime: the first is a column of
  \<open>agents\<close> above, the second a keyword of Isabelle.
\<close>

record request_data =
  url :: string
  intent' :: string
  context' :: string

text \<open>
  The four \<^verbatim>\<open>useState\<close> cells of the component. \<open>error\<close> is typed
  \<^verbatim>\<open>string | null\<close>, but \<^verbatim>\<open>setError(result.error || ...)\<close> stores whatever JSON
  value the response carries, so the cell holds a JSON value.
\<close>

record form =
  requestData :: request_data
  submitted :: bool
  loading :: bool
  error :: "json option"

text \<open>
  \<^verbatim>\<open>handleSubmit\<close>. \<open>submitform\<close> is the server behind
  \<^verbatim>\<open>fetch('/api/submitform', ...)\<close>, from the data sent to what \<^verbatim>\<open>fetch\<close> and
  \<^verbatim>\<open>response.json()\<close> give. \<open>caught\<close> is the \<^verbatim>\<open>catch\<close> branch, reached when
  \<^verbatim>\<open>fetch\<close> or \<^verbatim>\<open>response.json()\<close> throws or \<^verbatim>\<open>result.error\<close> is read
  from \<^verbatim>\<open>null\<close>; \<^verbatim>\<open>finally\<close> clears \<open>loading\<close> on every path.
\<close>

definition handleSubmit :: "(request_data \<Rightarrow> fetch_result) \<Rightarrow> form \<Rightarrow> form" where
  "handleSubmit submitform st =
     (let st1 = st\<lparr>loading := True, error := None\<rparr>;
          caught = st1\<lparr>error := Some (JString ''Error occurred while submitting :('')\<rparr>;
          st2 =
            (case submitform (requestData st) of
               Rejected \<Rightarrow> caught
             | Response code b \<Rightarrow>
                 (case b of
                    None \<Rightarrow> caught
                  | Some result \<Rightarrow>
                      if ok code then
                        st1\<lparr>submitted := True,
                            requestData := \<lparr>url = [], intent' = [], context' = []\<rparr>\<rparr>
                      else if result = JNull then caught
                      else
                        st1\<lparr>error :=
                          Some (case property result ''error'' of
                                  None \<Rightarrow> JString ''Unknown error''
                                | Some v \<Rightarrow>
                                    if truthy v then v else JString ''Unknown error'')\<rparr>))
      in st2\<lparr>loading := False\<rparr>)"

text \<open>A submission the form takes for successful: a response that is ok and parses.\<close>

definition accepted :: "fetch_result \<Rightarrow> bool" where
  "accepted r =
     (case r of
        Rejected \<Rightarrow> False
      | Response code b \<Rightarrow> (case b of None \<Rightarrow> False | Some result \<Rightarrow> ok code))"

text \<open>
  The form's request reaching the route: \<^verbatim>\<open>JSON.stringify(requestData)\<close> is the
  body \<^verbatim>\<open>req.json()\<close> parses, and the route's response comes back with its status
  and its JSON body.
\<close>

definition request_json :: "request_data \<Rightarrow> json" where
  "request_json rd =
     JObject [(''url'', JString (url rd)), (''intent'', JString (intent' rd)),
              (''context'', JString (context' rd))]"

definition submitform_route :: "(json \<Rightarrow> fetch_result) \<Rightarrow> request_data \<Rightarrow> fetch_result" where
  "submitform_route execute rd =
     (let r = POST (Some (request_json rd)) execute in Response (status r) (Some (body r)))"

subsection \<open>The component \<^verbatim>\<open>Metrics.tsx\<close>\<close>

text \<open>
  \<^verbatim>\<open>interface Metric { id: number; title: string; value: string|number }\<close>. The
  fields \<open>id\<close> and \<open>value\<close> carry primes (\<open>id\<close> is the identity function,
  \<open>id'\<close> a column above, \<open>value\<close> a keyword).
\<close>

datatype metric_value = Text string | Number int

record metric =
  id'' :: int
  title :: string
  value' :: metric_value

definition mockData :: "metric list" where
  "mockData =
     [\<lparr>id'' = 1, title = ''Completion Rate'', value' = Text ''0%''\<rparr>,
      \<lparr>id'' = 2, title = ''Steps to completion'', value' = Number 20\<rparr>,
      \<lparr>id'' = 4, title = ''Error Rate'', value' = Text ''0%''\<rparr>,
      \<lparr>id'' = 3, title = ''Recommendation'', value' = Text ''We recommend you do this!''\<rparr>]"

text \<open>
  \<^verbatim>\<open>const dataDisplayed = metrics || mockData\<close>. The prop is \<^verbatim>\<open>Metric[]\<close> or
  \<^verbatim>\<open>undefined\<close> (\<open>None\<close>); an array is true for \<^verbatim>\<open>||\<close>, the empty one too.
\<close>

definition dataDisplayed :: "metric list option \<Rightarrow> metric list" where
  "dataDisplayed metrics = (case metrics of None \<Rightarrow> mockData | Some ms \<Rightarrow> ms)"

text \<open>One \<^verbatim>\<open>div\<close> of class \<^verbatim>\<open>metricCard\<close>: its key, its heading, its paragraph.\<close>

record card =
  card_key :: int
  metricTitle :: string
  metricValue :: metric_value

definition Metrics :: "metric list option \<Rightarrow> card list" where
  "Metrics metrics =
     map (\<lambda>m. \<lparr>card_key = id'' m, metricTitle = title m, metricValue = value' m\<rparr>)
       (dataDisplayed metrics)"

text \<open>
  The examples of the web client: a form filled in and not yet submitted, and a
  backend that answers every request with HTTP 500 and the JSON body
  \<^verbatim>\<open>{"detail": "Internal Server Error"}\<close>.
\<close>

definition filled_form :: form where
  "filled_form =
     \<lparr>requestData = \<lparr>url = ''http://example.com'', intent' = ''buy shoes'', context' = []\<rparr>,
      submitted = False, loading = False, error = None\<rparr>"

definition internal_server_error :: "json \<Rightarrow> fetch_result" where
  "internal_server_error d =
     Response 500 (Some (JObject [(''detail'', JString ''Internal Server Error'')]))"

section \<open>Facts about the schema's operations\<close>

lemmas eval_defs = exec_def insert_agent_loops_def before_insert_def next_iteration_def
  max_iteration_def iterations_of_def int4pl_def int4_def write_row_def key_exists_def
  agent_exists_def insert_agents_def Let_def

lemma sql_max_None: "(sql_max xs = None) = (xs = [])"
  by (induction xs) (auto split: option.splits)

lemma sql_max_Some: "xs \<noteq> [] \<Longrightarrow> sql_max xs = Some (Max (set xs))"
proof (induction xs)
  case Nil
  then show ?case by simp
next
  case (Cons x xs)
  show ?case
  proof (cases "xs = []")
    case True
    then show ?thesis by simp
  next
    case False
    with Cons have "sql_max xs = Some (Max (set xs))" by simp
    with False show ?thesis by (simp add: max_def)
  qed
qed

lemma sql_max_upto: "sql_max [1..int M] = (if M = 0 then None else Some (int M))"
proof (cases "M = 0")
  case True
  then show ?thesis by simp
next
  case False
  then have ne: "[1..int M] \<noteq> []" by simp
  have "Max (set [1..int M]) = int M"
    using False by (intro Max_eqI) auto
  with sql_max_Some[OF ne] False show ?thesis by simp
qed

lemma upto_snoc: "[1..int M] @ [int M + 1] = [1..1 + int M]"
  using upto_rec2[of 1 "1 + int M"] by simp

lemma iterations_of_append:
  "iterations_of (tbl @ [r]) a =
     iterations_of tbl a @ (if agent_id r = a then [iteration r] else [])"
  by (simp add: iterations_of_def)

lemma key_exists_iff: "key_exists tbl a i = (i \<in> set (iterations_of tbl a))"
  by (auto simp: key_exists_def iterations_of_def filter_empty_conv)

lemma before_insert_unassigned:
  assumes "before_insert s NEW = Inr NEW'" and "new_iteration NEW = None"
  shows "new_agent_id NEW' = new_agent_id NEW"
    and "new_plan_result NEW' = new_plan_result NEW"
    and "new_execution_result NEW' = new_execution_result NEW"
    and "new_agent_id NEW = Some a \<Longrightarrow>
           new_iteration NEW' = Some (next_value (agent_loops s) a)"
  using assms
  by (auto simp: before_insert_def next_iteration_def max_iteration_def next_value_def
        int4pl_def split: option.splits sum.splits if_splits)

lemma write_row_Inr:
  assumes "write_row s NEW = Inr (s', r)"
  shows "agents s' = agents s" and "agent_loops s' = agent_loops s @ [r]"
    and "new_agent_id NEW = Some (agent_id r)"
    and "new_iteration NEW = Some (iteration r)"
    and "\<not> key_exists (agent_loops s) (agent_id r) (iteration r)"
    and "agent_exists (agents s) (agent_id r)"
    and "plan_result r = new_plan_result NEW"
    and "execution_result r = new_execution_result NEW"
  using assms
  by (auto simp: write_row_def Let_def split: option.splits if_splits)

lemma insert_agent_loops_Inr:
  assumes "insert_agent_loops s NEW = Inr (s', r)"
  shows "agents s' = agents s" and "agent_loops s' = agent_loops s @ [r]"
    and "new_agent_id NEW = Some (agent_id r)"
    and "\<not> key_exists (agent_loops s) (agent_id r) (iteration r)"
    and "agent_exists (agents s) (agent_id r)"
    and "plan_result r = new_plan_result NEW"
    and "execution_result r = new_execution_result NEW"
    and "int4 (iteration r)"
    and "new_iteration NEW = Some i \<Longrightarrow> iteration r = i"
    and "new_iteration NEW = None \<Longrightarrow> iteration r = next_value (agent_loops s) (agent_id r)"
  using assms
  by (auto simp: insert_agent_loops_def before_insert_def next_iteration_def write_row_def
        max_iteration_def int4pl_def int4_def next_value_def Let_def
      split: sum.splits option.splits if_splits)

lemma exec_unassigned:
  assumes "iterations_of (agent_loops s) a = [1..int M]"
      and "unassigned_for a st"
      and "exec s st = (s', out)"
  shows "iterations_of (agent_loops s') a = [1..int (M + (if counts_for a out then 1 else 0))]"
proof (cases st)
  case (Insert_agents gen NEW)
  with assms show ?thesis
    by (auto simp: exec_def insert_agents_def counts_for_def Let_def
        split: sum.splits option.splits if_splits)
next
  case (Insert_agent_loops NEW)
  show ?thesis
  proof (cases "insert_agent_loops s NEW")
    case (Inl e)
    with assms(3) Insert_agent_loops have "s' = s" and "out = Failed e"
      by (simp_all add: exec_def)
    with assms(1) show ?thesis
      by (simp add: counts_for_def)
  next
    case (Inr p)
    obtain s1 r where p: "p = (s1, r)" by (cases p)
    with Inr have ok: "insert_agent_loops s NEW = Inr (s1, r)" by simp
    from assms(3) Insert_agent_loops ok have s': "s' = s1" and out: "out = Loop_row r"
      by (simp_all add: exec_def)
    note tbl = insert_agent_loops_Inr(2)[OF ok]
    show ?thesis
    proof (cases "agent_id r = a")
      case False
      with assms(1) s' out tbl show ?thesis
        by (simp add: iterations_of_append counts_for_def)
    next
      case True
      with insert_agent_loops_Inr(3)[OF ok] have "new_agent_id NEW = Some a" by simp
      with assms(2) Insert_agent_loops have "new_iteration NEW = None"
        by (simp add: unassigned_for_def)
      from insert_agent_loops_Inr(10)[OF ok this] True assms(1)
      have "iteration r = int M + 1"
        by (simp add: next_value_def sql_max_upto)
      with assms(1) s' out tbl True show ?thesis
        by (simp add: iterations_of_append counts_for_def upto_snoc)
    qed
  qed
qed

subsection \<open>Sequential cycles\<close>

text \<open>
  Claim C3. Statements run one after the other, and every insert for agent \<open>a\<close>
  leaves \<open>iteration\<close> NULL, so that the trigger supplies it. If the agent's rows
  carry the iterations \<open>1, ..., M\<close> before (none when \<open>M = 0\<close>, the agent just
  created), then after \<open>N\<close> of these inserts have succeeded the agent's rows carry,
  in the order they were written, exactly \<open>1, ..., M + N\<close>: ascending, without gap
  or repetition. Inserts that fail, inserts for other agents and inserts into
  \<open>agents\<close> may stand between them.
\<close>

theorem sequential_inserts_monotone:
  assumes "iterations_of (agent_loops s) a = [1..int M]"
      and "list_all (unassigned_for a) sts"
      and "run s sts = (s', outs)"
  shows "iterations_of (agent_loops s') a = [1..int (M + length (filter (counts_for a) outs))]"
  using assms
proof (induction sts arbitrary: s M outs)
  case Nil
  then show ?case by simp
next
  case (Cons st sts)
  obtain s1 out where e: "exec s st = (s1, out)" by (cases "exec s st")
  obtain s2 outs2 where r: "run s1 sts = (s2, outs2)" by (cases "run s1 sts")
  from Cons.prems(3) e r have s': "s2 = s'" and outs: "outs = out # outs2" by simp_all
  from Cons.prems(2) have u: "unassigned_for a st" and us: "list_all (unassigned_for a) sts"
    by simp_all
  from exec_unassigned[OF Cons.prems(1) u e]
  have "iterations_of (agent_loops s1) a = [1..int (M + (if counts_for a out then 1 else 0))]" .
  from Cons.IH[OF this us r[unfolded s']] outs show ?case
    by (simp add: add.assoc)
qed

text \<open>
  The scenario of the specification: two cycles of agent \<open>1\<close> with a cycle of the
  unknown agent \<open>2\<close> between them; the history of agent \<open>1\<close> is \<open>[1, 2]\<close>.
\<close>

theorem sequential_inserts_monotone_witness:
  "(let sts = [cycle 1 ''plan: click search'' ''clicked search'',
               cycle 2 ''plan'' ''unknown agent'',
               cycle 1 ''plan: type query'' ''typed query''];
        (s', outs) = run shoes_db sts
    in iterations_of (agent_loops shoes_db) 1 = [1..int 0] \<and>
       list_all (unassigned_for 1) sts \<and>
       length (filter (counts_for 1) outs) = 2 \<and>
       iterations_of (agent_loops s') 1 = [1, 2])"
proof -
  let ?sts = "[cycle 1 ''plan: click search'' ''clicked search'',
               cycle 2 ''plan'' ''unknown agent'',
               cycle 1 ''plan: type query'' ''typed query'']"
  obtain s' outs where r: "run shoes_db ?sts = (s', outs)" by (cases "run shoes_db ?sts")
  have h1: "iterations_of (agent_loops shoes_db) 1 = [1..int 0]"
    by (simp add: shoes_db_def iterations_of_def)
  have h2: "list_all (unassigned_for 1) ?sts"
    by (simp add: unassigned_for_def cycle_def cycle_row_def)
  have n: "length (filter (counts_for 1) outs) = 2"
    using r by (auto simp: shoes_db_def cycle_def cycle_row_def eval_defs counts_for_def)
  have u: "[1..2] = [1, 2::int]" by (simp add: upto.simps)
  from sequential_inserts_monotone[OF h1 h2 r] n u h1 h2 r show ?thesis
    by simp
qed

subsection \<open>A key is written once\<close>

lemma exec_keeps_key:
  assumes "exec s st = (s', out)" and "rows_with_key (agent_loops s) a i = [r]"
  shows "rows_with_key (agent_loops s') a i = [r]"
proof (cases st)
  case (Insert_agents gen NEW)
  with assms show ?thesis
    by (auto simp: exec_def insert_agents_def Let_def split: sum.splits option.splits if_splits)
next
  case (Insert_agent_loops NEW)
  show ?thesis
  proof (cases "insert_agent_loops s NEW")
    case (Inl e)
    with assms Insert_agent_loops show ?thesis by (simp add: exec_def)
  next
    case (Inr p)
    obtain s1 r' where "p = (s1, r')" by (cases p)
    with Inr have ok: "insert_agent_loops s NEW = Inr (s1, r')" by simp
    with assms(1) Insert_agent_loops have s': "s' = s1" by (simp add: exec_def)
    from insert_agent_loops_Inr(4)[OF ok] assms(2)
    have "\<not> (agent_id r' = a \<and> iteration r' = i)"
      by (auto simp: key_exists_def rows_with_key_def)
    with insert_agent_loops_Inr(2)[OF ok] assms(2) s' show ?thesis
      by (simp add: rows_with_key_def)
  qed
qed

lemma run_keeps_key:
  assumes "run s sts = (s', outs)" and "rows_with_key (agent_loops s) a i = [r]"
  shows "rows_with_key (agent_loops s') a i = [r]"
  using assms
proof (induction sts arbitrary: s outs)
  case Nil
  then show ?case by simp
next
  case (Cons st sts)
  obtain s1 out where e: "exec s st = (s1, out)" by (cases "exec s st")
  obtain s2 outs2 where r: "run s1 sts = (s2, outs2)" by (cases "run s1 sts")
  from Cons.prems(1) e r have s': "s2 = s'" by simp
  from Cons.IH[OF r[unfolded s'] exec_keeps_key[OF e Cons.prems(2)]] show ?case .
qed

text \<open>
  Claim C4. Once an insert has stored the row \<open>r\<close>, then after any further
  statements an insert that supplies the key \<open>(agent_id r, iteration r)\<close> again fails
  with \<open>unique_violation\<close> and leaves the database as it was; the one row of that key
  is still \<open>r\<close>, with its \<open>plan_result\<close> and \<open>execution_result\<close>.
\<close>

theorem duplicate_append_rejected:
  assumes "insert_agent_loops s NEW = Inr (s1, r)"
      and "run s1 sts = (s2, outs)"
      and "new_agent_id NEW2 = Some (agent_id r)"
      and "new_iteration NEW2 = Some (iteration r)"
  shows "exec s2 (Insert_agent_loops NEW2) = (s2, Failed unique_violation) \<and>
         rows_with_key (agent_loops s2) (agent_id r) (iteration r) = [r]"
proof -
  from insert_agent_loops_Inr(2,4)[OF assms(1)]
  have "rows_with_key (agent_loops s1) (agent_id r) (iteration r) = [r]"
    by (simp add: rows_with_key_def key_exists_def)
  from run_keeps_key[OF assms(2) this]
  have k: "rows_with_key (agent_loops s2) (agent_id r) (iteration r) = [r]" .
  then have "key_exists (agent_loops s2) (agent_id r) (iteration r)"
    by (simp add: key_exists_def rows_with_key_def)
  with assms(3,4) insert_agent_loops_Inr(8)[OF assms(1)]
  have "insert_agent_loops s2 NEW2 = Inl unique_violation"
    by (simp add: insert_agent_loops_def before_insert_def next_iteration_def write_row_def)
  with k show ?thesis by (simp add: exec_def)
qed

text \<open>
  The first cycle of agent \<open>1\<close> is stored as iteration \<open>1\<close>; after a second cycle, an
  insert that supplies \<open>(1, 1)\<close> with other results is refused and the row is as it
  was.
\<close>

theorem duplicate_append_rejected_witness:
  "(case insert_agent_loops shoes_db (cycle_row 1 ''plan: click search'' ''clicked search'') of
      Inl e \<Rightarrow> False
    | Inr (s1, r) \<Rightarrow>
        (case run s1 [cycle 1 ''plan: type query'' ''typed query''] of
           (s2, outs) \<Rightarrow>
             r = \<lparr>agent_id = 1, iteration = 1, plan_result = Some ''plan: click search'',
                  execution_result = Some ''clicked search''\<rparr> \<and>
             exec s2 (Insert_agent_loops
                        \<lparr>new_agent_id = Some 1, new_iteration = Some 1,
                         new_plan_result = Some ''other plan'',
                         new_execution_result = Some ''other result''\<rparr>)
               = (s2, Failed unique_violation) \<and>
             rows_with_key (agent_loops s2) 1 1 = [r]))"
proof -
  let ?NEW = "cycle_row 1 ''plan: click search'' ''clicked search''"
  let ?r = "\<lparr>agent_id = 1, iteration = 1, plan_result = Some ''plan: click search'',
              execution_result = Some ''clicked search''\<rparr>"
  let ?NEW2 = "\<lparr>new_agent_id = Some 1, new_iteration = Some 1,
                 new_plan_result = Some ''other plan'',
                 new_execution_result = Some ''other result''\<rparr>"
  let ?s1 = "shoes_db\<lparr>agent_loops := [?r]\<rparr>"
  have a: "insert_agent_loops shoes_db ?NEW = Inr (?s1, ?r)"
    by (simp add: shoes_db_def cycle_row_def eval_defs)
  obtain s2 outs where b: "run ?s1 [cycle 1 ''plan: type query'' ''typed query''] = (s2, outs)"
    by (cases "run ?s1 [cycle 1 ''plan: type query'' ''typed query'']")
  from duplicate_append_rejected[OF a b, of ?NEW2] a b show ?thesis
    by simp
qed

subsection \<open>An insert for an agent that was never created\<close>

lemma exec_references_ok:
  assumes "exec s st = (s', out)" and "references_ok s"
  shows "references_ok s'"
proof (cases st)
  case (Insert_agents gen NEW)
  with assms show ?thesis
    by (auto simp: exec_def insert_agents_def Let_def references_ok_def agent_exists_def
          list_all_iff split: sum.splits option.splits if_splits)
next
  case (Insert_agent_loops NEW)
  show ?thesis
  proof (cases "insert_agent_loops s NEW")
    case (Inl e)
    with assms Insert_agent_loops show ?thesis by (simp add: exec_def)
  next
    case (Inr p)
    obtain s1 r' where "p = (s1, r')" by (cases p)
    with Inr have ok: "insert_agent_loops s NEW = Inr (s1, r')" by simp
    with assms(1) Insert_agent_loops have s': "s' = s1" by (simp add: exec_def)
    from insert_agent_loops_Inr(1,2,5)[OF ok] assms(2) s' show ?thesis
      by (simp add: references_ok_def)
  qed
qed

lemma run_references_ok:
  assumes "run s sts = (s', outs)" and "references_ok s"
  shows "references_ok s'"
  using assms
proof (induction sts arbitrary: s outs)
  case Nil
  then show ?case by simp
next
  case (Cons st sts)
  obtain s1 out where e: "exec s st = (s1, out)" by (cases "exec s st")
  obtain s2 outs2 where r: "run s1 sts = (s2, outs2)" by (cases "run s1 sts")
  from Cons.prems(1) e r have s': "s2 = s'" by simp
  from Cons.IH[OF r[unfolded s'] exec_references_ok[OF e Cons.prems(2)]] show ?case .
qed

text \<open>
  Claim C5. In any database reached from the empty tables of the migration by
  inserts, a cycle written for an \<open>agent_id\<close> that is not in \<open>agents\<close> fails with
  \<open>foreign_key_violation\<close> (the unknown-agent error of the schema) and the database,
  \<open>agent_loops\<close> with it, is as it was.
\<close>

theorem unknown_agent_rejected:
  assumes "run empty_db sts = (s, outs)"
      and "\<not> agent_exists (agents s) a"
      and "new_agent_id NEW = Some a"
      and "new_iteration NEW = None"
  shows "exec s (Insert_agent_loops NEW) = (s, Failed foreign_key_violation)"
proof -
  have "references_ok empty_db" by (simp add: references_ok_def empty_db_def)
  from run_references_ok[OF assms(1) this] have ok: "references_ok s" .
  with assms(2) have none: "filter (\<lambda>r. agent_id r = a) (agent_loops s) = []"
    by (auto simp: references_ok_def list_all_iff filter_empty_conv)
  then have "iterations_of (agent_loops s) a = []"
    by (simp add: iterations_of_def)
  moreover from none have "\<not> key_exists (agent_loops s) a 1"
    by (auto simp: key_exists_def filter_empty_conv)
  ultimately have "insert_agent_loops s NEW = Inl foreign_key_violation"
    using assms(2,3,4)
    by (simp add: insert_agent_loops_def before_insert_def next_iteration_def
          max_iteration_def write_row_def)
  then show ?thesis by (simp add: exec_def)
qed

text \<open>
  Agent \<open>1\<close> is created and records a cycle; a cycle for agent \<open>2\<close>, never created,
  is refused.
\<close>

theorem unknown_agent_rejected_witness:
  "(case run empty_db
           [Insert_agents 1 \<lparr>new_id = None, new_session_id = Some 7,
                              new_intent = Some ''buy shoes''\<rparr>,
            cycle 1 ''plan: click search'' ''clicked search''] of
      (s, outs) \<Rightarrow>
        \<not> agent_exists (agents s) 2 \<and>
        length (agent_loops s) = 1 \<and>
        exec s (cycle 2 ''plan'' ''result'') = (s, Failed foreign_key_violation))"
proof -
  let ?sts = "[Insert_agents 1 \<lparr>new_id = None, new_session_id = Some 7,
                              new_intent = Some ''buy shoes''\<rparr>,
               cycle 1 ''plan: click search'' ''clicked search'']"
  obtain s outs where r: "run empty_db ?sts = (s, outs)" by (cases "run empty_db ?sts")
  then have s: "s = \<lparr>agents = [\<lparr>id' = 1, session_id = 7, intent = Some ''buy shoes''\<rparr>],
                     agent_loops = [\<lparr>agent_id = 1, iteration = 1,
                                     plan_result = Some ''plan: click search'',
                                     execution_result = Some ''clicked search''\<rparr>]\<rparr>"
    by (auto simp: empty_db_def cycle_def cycle_row_def eval_defs)
  then have n: "\<not> agent_exists (agents s) 2" by (simp add: agent_exists_def)
  from unknown_agent_rejected[OF r n, of "cycle_row 2 ''plan'' ''result''"] r s n
  show ?thesis by (simp add: cycle_def cycle_row_def)
qed

subsection \<open>An insert that supplies the iteration\<close>

text \<open>
  Claim C6. When \<^verbatim>\<open>NEW.iteration\<close> is not NULL the trigger returns \<^verbatim>\<open>NEW\<close> as
  it came. For a value \<open>i\<close> of the column's type and an agent \<open>a\<close> of \<open>agents\<close>,
  the insert is then decided by the primary key alone: it fails with
  \<open>unique_violation\<close> when \<open>(a, i)\<close> is in the table, and otherwise stores the row
  with exactly \<open>i\<close>, whatever iterations the agent already has. So a supplied
  iteration need not be the smallest unused one, and the agent's iterations can have
  gaps.
\<close>

theorem explicit_iteration_kept:
  assumes "new_iteration NEW = Some i" and "int4 i"
      and "new_agent_id NEW = Some a" and "agent_exists (agents s) a"
  shows "next_iteration (agent_loops s) NEW = Inr NEW \<and>
         insert_agent_loops s NEW =
           (if key_exists (agent_loops s) a i then Inl unique_violation
            else
              (let r = \<lparr>agent_id = a, iteration = i,
                         plan_result = new_plan_result NEW,
                         execution_result = new_execution_result NEW\<rparr>
               in Inr (s\<lparr>agent_loops := agent_loops s @ [r]\<rparr>, r)))"
  using assms
  by (simp add: insert_agent_loops_def before_insert_def next_iteration_def write_row_def)

text \<open>Agent \<open>1\<close> has no row; an insert that supplies iteration \<open>5\<close> stores \<open>5\<close>.\<close>

theorem explicit_iteration_kept_witness:
  "(let NEW = \<lparr>new_agent_id = Some 1, new_iteration = Some 5,
                new_plan_result = Some ''plan'', new_execution_result = None\<rparr>
    in int4 5 \<and> agent_exists (agents shoes_db) 1 \<and>
       next_iteration (agent_loops shoes_db) NEW = Inr NEW \<and>
       (case insert_agent_loops shoes_db NEW of
          Inl e \<Rightarrow> False
        | Inr (s', r) \<Rightarrow> iteration r = 5 \<and> iterations_of (agent_loops s') 1 = [5]))"
  using explicit_iteration_kept
    [of "\<lparr>new_agent_id = Some 1, new_iteration = Some 5,
           new_plan_result = Some ''plan'', new_execution_result = None\<rparr>" 5 1 shoes_db]
  by (simp add: shoes_db_def int4_def agent_exists_def key_exists_def iterations_of_def Let_def)

section \<open>The ledger under concurrent callers\<close>

subsection \<open>The iterations of an agent stay \<open>1, ..., N\<close>\<close>

lemma contiguous_iff:
  "contiguous tbl a =
     (\<exists>N::nat. distinct (iterations_of tbl a) \<and> set (iterations_of tbl a) = {1..int N})"
proof
  assume "contiguous tbl a"
  then show "\<exists>N::nat. distinct (iterations_of tbl a) \<and> set (iterations_of tbl a) = {1..int N}"
    by (auto simp: contiguous_def)
next
  assume "\<exists>N::nat. distinct (iterations_of tbl a) \<and> set (iterations_of tbl a) = {1..int N}"
  then obtain N :: nat where d: "distinct (iterations_of tbl a)"
    and st: "set (iterations_of tbl a) = {1..int N}" by blast
  from d have "length (iterations_of tbl a) = card (set (iterations_of tbl a))"
    by (simp add: distinct_card)
  with st have "length (iterations_of tbl a) = N" by simp
  with d st show "contiguous tbl a" by (simp add: contiguous_def)
qed

lemma contiguous_next_value:
  assumes "contiguous tbl a"
  shows "next_value tbl a = int (length (iterations_of tbl a)) + 1"
proof (cases "iterations_of tbl a = []")
  case True
  then show ?thesis by (simp add: next_value_def)
next
  case False
  let ?its = "iterations_of tbl a"
  from assms have st: "set ?its = {1..int (length ?its)}" by (simp add: contiguous_def)
  from False have "1 \<le> int (length ?its)" by (cases ?its) simp_all
  then have "Max {1..int (length ?its)} = int (length ?its)"
    by (intro Max_eqI) auto
  with st have "Max (set ?its) = int (length ?its)" by simp
  with sql_max_Some[OF False] show ?thesis by (simp add: next_value_def)
qed

lemma contiguous_append:
  assumes "contiguous tbl a" and "agent_id r = a \<Longrightarrow> iteration r = next_value tbl a"
  shows "contiguous (tbl @ [r]) a"
proof (cases "agent_id r = a")
  case False
  with assms(1) show ?thesis by (simp add: contiguous_def iterations_of_append)
next
  case True
  let ?n = "int (length (iterations_of tbl a))"
  from assms(2)[OF True] contiguous_next_value[OF assms(1)]
  have it: "iteration r = ?n + 1" by simp
  from assms(1) have d: "distinct (iterations_of tbl a)"
    and s: "set (iterations_of tbl a) = {1..?n}" by (simp_all add: contiguous_def)
  have "{1..?n + 1} = insert (?n + 1) {1..?n}" by auto
  with d s it True show ?thesis
    by (simp add: contiguous_def iterations_of_append add.commute)
qed

lemma pending_ok_mono:
  assumes "pending_ok tbl a c"
      and "length (iterations_of tbl a) \<le> length (iterations_of tbl' a)"
  shows "pending_ok tbl' a c"
  using assms by (auto simp: pending_ok_def split: call.splits option.splits)

lemma list_all_update:
  assumes "list_all P cs" and "P c"
  shows "list_all P (cs[i := c])"
  using assms set_update_subset_insert[of cs i c] by (auto simp: list_all_iff)

lemma step_contiguous:
  assumes "contiguous (agent_loops s) a"
      and "list_all (pending_ok (agent_loops s) a) cs"
      and "step i (s, cs) = (s', cs')"
  shows "contiguous (agent_loops s') a \<and> list_all (pending_ok (agent_loops s') a) cs'"
proof (cases "i < length cs")
  case False
  with assms show ?thesis by (simp add: step_def)
next
  case True
  then have mem: "cs ! i \<in> set cs" by simp
  with assms(2) have ci: "pending_ok (agent_loops s) a (cs ! i)" by (simp add: list_all_iff)
  show ?thesis
  proof (cases "cs ! i")
    case (Finished res)
    with assms True show ?thesis by (simp add: step_def)
  next
    case (Ready NEW)
    with ci have un: "new_iteration NEW = None" by (simp add: pending_ok_def)
    show ?thesis
    proof (cases "before_insert s NEW")
      case (Inl e)
      with assms(3) True Ready have "s' = s" and "cs' = cs[i := Finished (Inl e)]"
        by (simp_all add: step_def)
      with assms(1,2) show ?thesis
        by (simp add: list_all_update pending_ok_def)
    next
      case (Inr NEW')
      with assms(3) True Ready have s': "s' = s" and cs': "cs' = cs[i := Triggered NEW']"
        by (simp_all add: step_def)
      have "pending_ok (agent_loops s) a (Triggered NEW')"
      proof (cases "new_agent_id NEW = Some a")
        case False
        with before_insert_unassigned(1)[OF Inr un] show ?thesis
          by (simp add: pending_ok_def)
      next
        case isa: True
        from before_insert_unassigned(4)[OF Inr un isa] contiguous_next_value[OF assms(1)]
        show ?thesis by (simp add: pending_ok_def)
      qed
      with assms(1,2) s' cs' show ?thesis by (simp add: list_all_update)
    qed
  next
    case (Triggered NEW')
    show ?thesis
    proof (cases "write_row s NEW'")
      case (Inl e)
      with assms(3) True Triggered have "s' = s" and "cs' = cs[i := Finished (Inl e)]"
        by (simp_all add: step_def)
      with assms(1,2) show ?thesis
        by (simp add: list_all_update pending_ok_def)
    next
      case (Inr p)
      obtain s1 r where "p = (s1, r)" by (cases p)
      with Inr have ok: "write_row s NEW' = Inr (s1, r)" by simp
      with assms(3) True Triggered have s': "s' = s1" and cs': "cs' = cs[i := Finished (Inr r)]"
        by (simp_all add: step_def)
      note tbl = write_row_Inr(2)[OF ok]
      have nv: "iteration r = next_value (agent_loops s) a" if isa: "agent_id r = a"
      proof -
        let ?n = "int (length (iterations_of (agent_loops s) a))"
        from ci Triggered write_row_Inr(3,4)[OF ok] isa
        have "1 \<le> iteration r" and "iteration r \<le> ?n + 1"
          by (simp_all add: pending_ok_def)
        moreover from write_row_Inr(5)[OF ok] isa assms(1)
        have "iteration r \<notin> {1..?n}"
          by (simp add: key_exists_iff contiguous_def)
        ultimately have "iteration r = ?n + 1" by simp
        with contiguous_next_value[OF assms(1)] show ?thesis by simp
      qed
      from contiguous_append[OF assms(1) nv] tbl s'
      have c: "contiguous (agent_loops s') a" by simp
      have "length (iterations_of (agent_loops s) a) \<le> length (iterations_of (agent_loops s') a)"
        using tbl s' by (simp add: iterations_of_append)
      with assms(2) have "list_all (pending_ok (agent_loops s') a) cs"
        by (auto simp: list_all_iff intro: pending_ok_mono)
      with cs' have "list_all (pending_ok (agent_loops s') a) cs'"
        by (simp add: list_all_update pending_ok_def)
      with c show ?thesis by simp
    qed
  qed
qed

lemma interleave_contiguous:
  assumes "contiguous (agent_loops s) a"
      and "list_all (pending_ok (agent_loops s) a) cs"
      and "interleave sched (s, cs) = (s', cs')"
  shows "contiguous (agent_loops s') a"
  using assms
proof (induction sched arbitrary: s cs)
  case Nil
  then show ?case by simp
next
  case (Cons i sched)
  obtain s1 cs1 where st: "step i (s, cs) = (s1, cs1)" by (cases "step i (s, cs)")
  from step_contiguous[OF Cons.prems(1,2) st]
  have "contiguous (agent_loops s1) a" and "list_all (pending_ok (agent_loops s1) a) cs1"
    by simp_all
  moreover from Cons.prems(3) st have "interleave sched (s1, cs1) = (s', cs')" by simp
  ultimately show ?case by (rule Cons.IH)
qed

lemma iterations_of_append_rows:
  "iterations_of (tbl @ new) a = iterations_of tbl a @ iterations_of new a"
  by (simp add: iterations_of_def)

lemma step_appends:
  assumes "step i (s, cs) = (s', cs')"
  shows "agents s' = agents s \<and> (\<exists>new. agent_loops s' = agent_loops s @ new)"
proof (cases "i < length cs")
  case False
  with assms show ?thesis by (simp add: step_def)
next
  case True
  show ?thesis
  proof (cases "cs ! i")
    case (Ready NEW)
    with assms True have "s' = s"
      by (cases "before_insert s NEW") (simp_all add: step_def)
    then show ?thesis by simp
  next
    case (Triggered NEW')
    show ?thesis
    proof (cases "write_row s NEW'")
      case (Inl e)
      with assms True Triggered have "s' = s" by (simp add: step_def)
      then show ?thesis by simp
    next
      case (Inr p)
      obtain s1 r where "p = (s1, r)" by (cases p)
      with Inr have w: "write_row s NEW' = Inr (s1, r)" by simp
      with assms True Triggered have "s' = s1" by (simp add: step_def)
      with write_row_Inr(1,2)[OF w] show ?thesis by simp
    qed
  next
    case (Finished res)
    with assms True have "s' = s" by (simp add: step_def)
    then show ?thesis by simp
  qed
qed

lemma interleave_appends:
  assumes "interleave sched (s, cs) = (s', cs')"
  shows "agents s' = agents s \<and> (\<exists>new. agent_loops s' = agent_loops s @ new)"
  using assms
proof (induction sched arbitrary: s cs)
  case Nil
  then show ?case by simp
next
  case (Cons i sched)
  obtain s1 cs1 where st: "step i (s, cs) = (s1, cs1)" by (cases "step i (s, cs)")
  from step_appends[OF st] obtain new1 where a1: "agents s1 = agents s"
    and t1: "agent_loops s1 = agent_loops s @ new1" by blast
  from Cons.prems st have "interleave sched (s1, cs1) = (s', cs')" by simp
  from Cons.IH[OF this] obtain new2 where a2: "agents s' = agents s1"
    and t2: "agent_loops s' = agent_loops s1 @ new2" by blast
  from a1 a2 t1 t2 have "agents s' = agents s"
    and "agent_loops s' = agent_loops s @ (new1 @ new2)" by simp_all
  then show ?case by blast
qed

text \<open>
  Claim C1, as amended. Any number of callers insert, each leaving \<open>iteration\<close>
  to the trigger, for any agents, and their steps interleave in any order, finished or
  not. If the iterations of agent \<open>a\<close> were \<open>{1, ..., N}\<close>, each once, before, they
  are \<open>{1, ..., N'}\<close>, each once, after, with \<open>N \<le> N'\<close>: the table after is the
  table before with the rows \<open>new\<close> behind it, no row of before is lost or changed,
  \<open>N'\<close> is \<open>N\<close> plus the number of rows of \<open>new\<close> that are the agent's, and these
  carry exactly the iterations \<open>N + 1, ..., N'\<close>.
\<close>

theorem unassigned_inserts_keep_contiguous:
  assumes "contiguous (agent_loops s) a"
      and "list_all unassigned_call cs"
      and "interleave sched (s, cs) = (s', cs')"
  shows "contiguous (agent_loops s') a \<and>
         agents s' = agents s \<and>
         (\<exists>new. agent_loops s' = agent_loops s @ new \<and>
                iterations_of (agent_loops s') a =
                  iterations_of (agent_loops s) a @ iterations_of new a \<and>
                set (iterations_of (agent_loops s) a) =
                  {1..int (length (iterations_of (agent_loops s) a))} \<and>
                set (iterations_of new a) =
                  {int (length (iterations_of (agent_loops s) a)) + 1..
                   int (length (iterations_of (agent_loops s) a) +
                        length (iterations_of new a))} \<and>
                set (iterations_of (agent_loops s') a) =
                  {1..int (length (iterations_of (agent_loops s) a) +
                           length (iterations_of new a))}) \<and>
         length (iterations_of (agent_loops s) a) \<le> length (iterations_of (agent_loops s') a)"
proof -
  let ?old = "iterations_of (agent_loops s) a"
  from assms(2) have "list_all (pending_ok (agent_loops s) a) cs"
    by (auto simp: list_all_iff unassigned_call_def pending_ok_def split: call.splits)
  from interleave_contiguous[OF assms(1) this assms(3)]
  have c': "contiguous (agent_loops s') a" .
  from interleave_appends[OF assms(3)] obtain new where ag: "agents s' = agents s"
    and tbl: "agent_loops s' = agent_loops s @ new" by blast
  let ?add = "iterations_of new a"
  from tbl have its: "iterations_of (agent_loops s') a = ?old @ ?add"
    by (simp add: iterations_of_append_rows)
  from assms(1) have so: "set ?old = {1..int (length ?old)}"
    by (simp add: contiguous_def)
  from c' its have d: "distinct (?old @ ?add)"
    and sa: "set (?old @ ?add) = {1..int (length ?old + length ?add)}"
    by (simp_all add: contiguous_def)
  from d have disj: "set ?old \<inter> set ?add = {}" by simp
  from sa have un: "set ?old \<union> set ?add = {1..int (length ?old + length ?add)}" by simp
  have sn: "set ?add = {int (length ?old) + 1..int (length ?old + length ?add)}"
  proof (rule set_eqI)
    fix x
    show "(x \<in> set ?add) =
            (x \<in> {int (length ?old) + 1..int (length ?old + length ?add)})"
    proof
      assume x: "x \<in> set ?add"
      with un have "x \<in> {1..int (length ?old + length ?add)}" by blast
      moreover from x disj so have "x \<notin> {1..int (length ?old)}" by blast
      ultimately show "x \<in> {int (length ?old) + 1..int (length ?old + length ?add)}"
        by simp
    next
      assume x: "x \<in> {int (length ?old) + 1..int (length ?old + length ?add)}"
      then have "x \<in> {1..int (length ?old + length ?add)}" by simp
      with un have "x \<in> set ?old \<union> set ?add" by simp
      moreover from x so have "x \<notin> set ?old" by simp
      ultimately show "x \<in> set ?add" by blast
    qed
  qed
  from sa its have st: "set (iterations_of (agent_loops s') a) =
      {1..int (length ?old + length ?add)}" by simp
  from its have le: "length ?old \<le> length (iterations_of (agent_loops s') a)" by simp
  from tbl its so sn st
  have "\<exists>new. agent_loops s' = agent_loops s @ new \<and>
              iterations_of (agent_loops s') a = ?old @ iterations_of new a \<and>
              set ?old = {1..int (length ?old)} \<and>
              set (iterations_of new a) =
                {int (length ?old) + 1..int (length ?old + length (iterations_of new a))} \<and>
              set (iterations_of (agent_loops s') a) =
                {1..int (length ?old + length (iterations_of new a))}"
    by blast
  with c' ag le show ?thesis by blast
qed

text \<open>
  Agent \<open>1\<close> has the iterations \<open>1, 2\<close>. Of three callers, the first two read the
  maximum \<open>2\<close>, the first writes \<open>3\<close>, the third reads, the second loses, the
  third writes \<open>4\<close>. The two rows of before are still the first two, and the
  iterations are \<open>1, 2, 3, 4\<close>.
\<close>

theorem unassigned_inserts_keep_contiguous_witness:
  "(let cs = [Ready (cycle_row 1 ''p0'' ''e0''), Ready (cycle_row 1 ''p1'' ''e1''),
              Ready (cycle_row 1 ''p2'' ''e2'')];
        (s', cs') = interleave [0, 1, 0, 2, 1, 2] (two_loops_db, cs)
    in contiguous (agent_loops two_loops_db) 1 \<and> list_all unassigned_call cs \<and>
       iterations_of (agent_loops two_loops_db) 1 = [1, 2] \<and>
       iterations_of (agent_loops s') 1 = [1, 2, 3, 4] \<and>
       take 2 (agent_loops s') = agent_loops two_loops_db \<and>
       contiguous (agent_loops s') 1 \<and>
       agents s' = agents two_loops_db \<and>
       length (iterations_of (agent_loops two_loops_db) 1)
         \<le> length (iterations_of (agent_loops s') 1))"
proof -
  let ?cs = "[Ready (cycle_row 1 ''p0'' ''e0''), Ready (cycle_row 1 ''p1'' ''e1''),
              Ready (cycle_row 1 ''p2'' ''e2'')]"
  obtain s' cs' where r: "interleave [0, 1, 0, 2, 1, 2] (two_loops_db, ?cs) = (s', cs')"
    by (cases "interleave [0, 1, 0, 2, 1, 2] (two_loops_db, ?cs)")
  have i0: "iterations_of (agent_loops two_loops_db) 1 = [1, 2]"
    by (simp add: two_loops_db_def shoes_db_def iterations_of_def)
  have u: "{1..2} = {1, 2::int}" by auto
  have h1: "contiguous (agent_loops two_loops_db) 1"
    by (simp add: contiguous_def i0 u)
  have h2: "list_all unassigned_call ?cs"
    by (simp add: unassigned_call_def cycle_row_def)
  from r have its: "iterations_of (agent_loops s') 1 = [1, 2, 3, 4]"
    by (auto simp: step_def two_loops_db_def shoes_db_def cycle_row_def eval_defs)
  from r have tk: "take 2 (agent_loops s') = agent_loops two_loops_db"
    by (auto simp: step_def two_loops_db_def shoes_db_def cycle_row_def eval_defs)
  from unassigned_inserts_keep_contiguous[OF h1 h2 r] h1 h2 i0 its tk r show ?thesis
    by simp
qed

text \<open>
  The claim as it is written fails on an insert that supplies the iteration: with
  no row for agent \<open>1\<close>, the insert of iteration \<open>3\<close> succeeds, and the agent's
  iterations are \<open>{3}\<close>.
\<close>

theorem supplied_iteration_breaks_contiguous:
  "contiguous (agent_loops shoes_db) 1 \<and>
   (case insert_agent_loops shoes_db
           \<lparr>new_agent_id = Some 1, new_iteration = Some 3,
            new_plan_result = Some ''plan'', new_execution_result = Some ''result''\<rparr> of
      Inl e \<Rightarrow> False
    | Inr (s', r) \<Rightarrow>
        iterations_of (agent_loops s') 1 = [3] \<and> \<not> contiguous (agent_loops s') 1)"
proof -
  let ?r = "\<lparr>agent_id = 1, iteration = 3, plan_result = Some ''plan'',
              execution_result = Some ''result''\<rparr>"
  have a: "insert_agent_loops shoes_db
             \<lparr>new_agent_id = Some 1, new_iteration = Some 3,
              new_plan_result = Some ''plan'', new_execution_result = Some ''result''\<rparr>
           = Inr (shoes_db\<lparr>agent_loops := [?r]\<rparr>, ?r)"
    by (simp add: shoes_db_def eval_defs)
  have b: "iterations_of [?r] 1 = [3]" by (simp add: iterations_of_def)
  have c: "contiguous (agent_loops shoes_db) 1"
    by (simp add: contiguous_def shoes_db_def iterations_of_def)
  from b have d: "\<not> contiguous [?r] 1" by (simp add: contiguous_def)
  from a b c d show ?thesis by simp
qed

subsection \<open>Callers racing for one agent\<close>

text \<open>
  One caller whose two steps run back to back is the \<^verbatim>\<open>INSERT\<close> statement.
\<close>

lemma sequential_as_interleaving:
  "interleave [0, 0] (s, [Ready NEW]) =
     (case insert_agent_loops s NEW of
        Inl e \<Rightarrow> (s, [Finished (Inl e)])
      | Inr (s', r) \<Rightarrow> (s', [Finished (Inr r)]))"
  by (auto simp: step_def insert_agent_loops_def split: sum.splits)

lemma sql_max_append:
  "sql_max (xs @ ys) =
     (case sql_max xs of
        None \<Rightarrow> sql_max ys
      | Some m \<Rightarrow> (case sql_max ys of None \<Rightarrow> Some m | Some n \<Rightarrow> Some (max m n)))"
  by (induction xs) (auto split: option.splits)

lemma sql_max_range:
  "sql_max [b..b + int j - 1] = (if j = 0 then None else Some (b + int j - 1))"
proof (cases "j = 0")
  case True
  then show ?thesis by simp
next
  case False
  then have ne: "[b..b + int j - 1] \<noteq> []" by simp
  have "Max (set [b..b + int j - 1]) = b + int j - 1"
    using False by (intro Max_eqI) auto
  with sql_max_Some[OF ne] False show ?thesis by simp
qed

lemma sql_max_ge: "sql_max xs = Some m \<Longrightarrow> x \<in> set xs \<Longrightarrow> x \<le> m"
  by (induction xs arbitrary: m) (auto simp: sql_max_None split: option.splits)

lemma below_next_value:
  assumes "x \<in> set (iterations_of tbl a)"
  shows "x < next_value tbl a"
proof -
  from assms have "iterations_of tbl a \<noteq> []" by auto
  then obtain m where m: "sql_max (iterations_of tbl a) = Some m"
    by (cases "sql_max (iterations_of tbl a)") (simp_all add: sql_max_None)
  from sql_max_ge[OF m assms] m show ?thesis by (simp add: next_value_def)
qed

lemma iterations_of_append_all:
  assumes "list_all (\<lambda>r. agent_id r = a) new"
  shows "iterations_of (tbl @ new) a = iterations_of tbl a @ map iteration new"
proof -
  from assms have "filter (\<lambda>r. agent_id r = a) new = new"
    by (simp add: list_all_iff)
  then show ?thesis by (simp add: iterations_of_def)
qed

lemma next_value_after:
  assumes "list_all (\<lambda>r. agent_id r = a) new"
      and "map iteration new = [next_value tbl a..next_value tbl a + int (length new) - 1]"
  shows "next_value (tbl @ new) a = next_value tbl a + int (length new)"
proof (cases "length new = 0")
  case True
  then show ?thesis by simp
next
  case False
  let ?b = "next_value tbl a"
  from False have mx: "sql_max (map iteration new) = Some (?b + int (length new) - 1)"
    using sql_max_range[of ?b "length new"] assms(2) by simp
  have "sql_max (iterations_of tbl a @ map iteration new) = Some (?b + int (length new) - 1)"
  proof (cases "sql_max (iterations_of tbl a)")
    case None
    with mx show ?thesis by (simp add: sql_max_append)
  next
    case (Some m)
    then have "?b = m + 1" by (simp add: next_value_def)
    with False have "max m (?b + int (length new) - 1) = ?b + int (length new) - 1" by simp
    with Some mx show ?thesis by (simp add: sql_max_append)
  qed
  then show ?thesis
    by (simp add: iterations_of_append_all[OF assms(1)] next_value_def)
qed

lemma key_exists_after:
  assumes "list_all (\<lambda>r. agent_id r = a) new"
      and "map iteration new = [next_value tbl a..next_value tbl a + int (length new) - 1]"
      and "next_value tbl a \<le> v"
  shows "key_exists (tbl @ new) a v = (v \<le> next_value tbl a + int (length new) - 1)"
proof -
  from assms(3) below_next_value[of v tbl a] have "v \<notin> set (iterations_of tbl a)" by auto
  moreover have "set (map iteration new) = {next_value tbl a..next_value tbl a + int (length new) - 1}"
    by (simp only: assms(2) set_upto)
  ultimately show ?thesis
    using assms(3) by (simp add: key_exists_iff iterations_of_append_all[OF assms(1)] del: set_map)
qed

lemma stored_update:
  assumes "i < length cs" and "stored_row (cs ! i) = []"
  shows "mset (stored (cs[i := c])) = mset (stored cs) + mset (stored_row c)"
proof -
  from assms(1) have a: "cs = take i cs @ cs ! i # drop (Suc i) cs"
    by (rule id_take_nth_drop)
  from assms(1) have b: "cs[i := c] = take i cs @ c # drop (Suc i) cs"
    by (rule upd_conv_take_nth_drop)
  have "stored cs = stored (take i cs) @ stored_row (cs ! i) @ stored (drop (Suc i) cs)"
    by (subst a) (simp add: stored_def)
  moreover have "stored (cs[i := c]) = stored (take i cs) @ stored_row c @ stored (drop (Suc i) cs)"
    by (subst b) (simp add: stored_def)
  ultimately show ?thesis using assms(2) by simp
qed

lemma length_stored_row: "length (stored_row c) \<le> 1"
  by (simp add: stored_row_def split: call.splits sum.splits)

lemma length_stored_le: "length (stored cs) \<le> length cs"
proof (induction cs)
  case Nil
  then show ?case by (simp add: stored_def)
next
  case (Cons c cs)
  with length_stored_row[of c] show ?case by (simp add: stored_def)
qed

lemma length_stored_less:
  assumes "c \<in> set cs" and "stored_row c = []"
  shows "length (stored cs) < length cs"
  using assms
proof (induction cs)
  case Nil
  then show ?case by simp
next
  case (Cons x cs)
  show ?case
  proof (cases "x = c")
    case True
    with Cons.prems(2) length_stored_le[of cs] show ?thesis by (simp add: stored_def)
  next
    case False
    with Cons have "length (stored cs) < length cs" by simp
    with length_stored_row[of x] show ?thesis by (simp add: stored_def)
  qed
qed

lemma before_insert_unassigned_Inl:
  assumes "before_insert s NEW = Inl e" and "new_iteration NEW = None"
      and "new_agent_id NEW = Some a"
  shows "\<not> int4 (next_value (agent_loops s) a)"
  using assms
  by (auto simp: before_insert_def next_iteration_def max_iteration_def next_value_def
        int4pl_def split: option.splits sum.splits if_splits)

lemma race_call_ok_mono:
  assumes "race_call_ok a b j c" and "j \<le> j'"
  shows "race_call_ok a b j' c"
  using assms by (auto simp: race_call_ok_def split: call.splits option.splits sum.splits)

lemma race_ok_length:
  assumes "race_ok s0 a s cs new"
  shows "length new = length (stored cs)"
proof -
  from assms have "mset (stored cs) = mset new" by (simp add: race_ok_def)
  then have "size (mset (stored cs)) = size (mset new)" by simp
  then show ?thesis by simp
qed

lemma upto_snoc_from: "[b..b + int j - 1] @ [b + int j] = [b..b + int (Suc j) - 1]"
  using upto_rec2[of b "b + int j"] by simp

lemma step_race:
  assumes inv: "race_ok s0 a s cs new"
      and ex: "agent_exists (agents s0) a"
      and lo: "int4 (next_value (agent_loops s0) a)"
      and hi: "int4 (next_value (agent_loops s0) a + int (length cs) - 1)"
      and st: "step i (s, cs) = (s', cs')"
  shows "\<exists>new'. race_ok s0 a s' cs' new' \<and> length cs' = length cs"
proof (cases "i < length cs")
  case False
  with inv st show ?thesis by (auto simp: step_def)
next
  case True
  let ?b = "next_value (agent_loops s0) a"
  let ?j = "length new"
  from inv have ag: "agents s = agents s0"
    and tbl: "agent_loops s = agent_loops s0 @ new"
    and alla: "list_all (\<lambda>r. agent_id r = a) new"
    and its: "map iteration new = [?b..?b + int ?j - 1]"
    and ms: "mset (stored cs) = mset new"
    and calls: "list_all (race_call_ok a ?b ?j) cs"
    by (simp_all add: race_ok_def)
  from True have mem: "cs ! i \<in> set cs" by simp
  with calls have ci: "race_call_ok a ?b ?j (cs ! i)" by (simp add: list_all_iff)
  have nv: "next_value (agent_loops s) a = ?b + int ?j"
    using next_value_after[OF alla its] tbl by simp
  show ?thesis
  proof (cases "cs ! i")
    case (Finished res)
    with inv st True show ?thesis by (auto simp: step_def)
  next
    case (Ready NEW)
    with ci have isa: "new_agent_id NEW = Some a" and un: "new_iteration NEW = None"
      by (simp_all add: race_call_ok_def)
    from Ready have sr: "stored_row (cs ! i) = []" by (simp add: stored_row_def)
    from length_stored_less[OF mem sr] race_ok_length[OF inv]
    have "?j < length cs" by simp
    with lo hi have "int4 (?b + int ?j)" by (simp add: int4_def)
    with nv have ok4: "int4 (next_value (agent_loops s) a)" by simp
    show ?thesis
    proof (cases "before_insert s NEW")
      case (Inl e)
      from before_insert_unassigned_Inl[OF Inl un isa] ok4 show ?thesis by simp
    next
      case (Inr NEW')
      with st True Ready have s': "s' = s" and cs': "cs' = cs[i := Triggered NEW']"
        by (simp_all add: step_def)
      from before_insert_unassigned(1,4)[OF Inr un] isa nv
      have "race_call_ok a ?b ?j (Triggered NEW')"
        by (simp add: race_call_ok_def)
      with calls have c': "list_all (race_call_ok a ?b ?j) cs'"
        unfolding cs' by (rule list_all_update)
      from stored_update[OF True sr, of "Triggered NEW'"] ms cs'
      have ms': "mset (stored cs') = mset new" by (simp add: stored_row_def)
      from ag tbl alla its ms' c' s' have "race_ok s0 a s' cs' new"
        by (simp add: race_ok_def)
      with cs' show ?thesis by auto
    qed
  next
    case (Triggered NEW')
    from Triggered have sr: "stored_row (cs ! i) = []" by (simp add: stored_row_def)
    from ci Triggered obtain v where isa: "new_agent_id NEW' = Some a"
      and v: "new_iteration NEW' = Some v" and vlo: "?b \<le> v" and vhi: "v \<le> ?b + int ?j"
      by (auto simp: race_call_ok_def split: option.splits)
    have ke: "key_exists (agent_loops s) a v = (v \<le> ?b + int ?j - 1)"
      using key_exists_after[OF alla its vlo] tbl by simp
    show ?thesis
    proof (cases "v \<le> ?b + int ?j - 1")
      case dup: True
      with ke isa v have "write_row s NEW' = Inl unique_violation"
        by (simp add: write_row_def)
      with st True Triggered have s': "s' = s"
        and cs': "cs' = cs[i := Finished (Inl unique_violation)]"
        by (simp_all add: step_def)
      from dup vlo have "1 \<le> ?j" by simp
      then have "race_call_ok a ?b ?j (Finished (Inl unique_violation))"
        by (simp add: race_call_ok_def)
      with calls have c': "list_all (race_call_ok a ?b ?j) cs'"
        unfolding cs' by (rule list_all_update)
      from stored_update[OF True sr, of "Finished (Inl unique_violation)"] ms cs'
      have ms': "mset (stored cs') = mset new" by (simp add: stored_row_def)
      from ag tbl alla its ms' c' s' have "race_ok s0 a s' cs' new"
        by (simp add: race_ok_def)
      with cs' show ?thesis by auto
    next
      case False
      with vhi have veq: "v = ?b + int ?j" by simp
      let ?r = "\<lparr>agent_id = a, iteration = v, plan_result = new_plan_result NEW',
                  execution_result = new_execution_result NEW'\<rparr>"
      from False ke isa v ex ag
      have "write_row s NEW' = Inr (s\<lparr>agent_loops := agent_loops s @ [?r]\<rparr>, ?r)"
        by (simp add: write_row_def Let_def)
      with st True Triggered have s': "s' = s\<lparr>agent_loops := agent_loops s @ [?r]\<rparr>"
        and cs': "cs' = cs[i := Finished (Inr ?r)]"
        by (simp_all add: step_def)
      let ?new = "new @ [?r]"
      have ag': "agents s' = agents s0" using s' ag by simp
      have tbl': "agent_loops s' = agent_loops s0 @ ?new" using s' tbl by simp
      have alla': "list_all (\<lambda>r. agent_id r = a) ?new" using alla by simp
      have its': "map iteration ?new = [?b..?b + int (length ?new) - 1]"
        using its veq upto_snoc_from[of ?b ?j] by simp
      from stored_update[OF True sr, of "Finished (Inr ?r)"] ms cs'
      have ms': "mset (stored cs') = mset ?new" by (simp add: stored_row_def)
      have "race_call_ok a ?b (length ?new) c" if "c \<in> set cs" for c
      proof -
        from calls that have "race_call_ok a ?b ?j c" by (simp add: list_all_iff)
        then show ?thesis by (rule race_call_ok_mono) simp
      qed
      then have "list_all (race_call_ok a ?b (length ?new)) cs" by (simp add: list_all_iff)
      moreover have "race_call_ok a ?b (length ?new) (Finished (Inr ?r))"
        by (simp add: race_call_ok_def)
      ultimately have c': "list_all (race_call_ok a ?b (length ?new)) cs'"
        unfolding cs' by (rule list_all_update)
      from ag' tbl' alla' its' ms' c' have "race_ok s0 a s' cs' ?new"
        unfolding race_ok_def by blast
      with cs' show ?thesis by auto
    qed
  qed
qed

lemma interleave_race:
  assumes "race_ok s0 a s cs new"
      and "agent_exists (agents s0) a"
      and "int4 (next_value (agent_loops s0) a)"
      and "int4 (next_value (agent_loops s0) a + int (length cs) - 1)"
      and "interleave sched (s, cs) = (s', cs')"
  shows "\<exists>new'. race_ok s0 a s' cs' new' \<and> length cs' = length cs"
  using assms
proof (induction sched arbitrary: s cs new)
  case Nil
  then show ?case by auto
next
  case (Cons i sched)
  obtain s1 cs1 where st: "step i (s, cs) = (s1, cs1)" by (cases "step i (s, cs)")
  from step_race[OF Cons.prems(1,2,3,4) st]
  obtain new1 where inv1: "race_ok s0 a s1 cs1 new1" and len: "length cs1 = length cs"
    by blast
  from Cons.prems(5) st have run: "interleave sched (s1, cs1) = (s', cs')" by simp
  from Cons.prems(4) len
  have hi: "int4 (next_value (agent_loops s0) a + int (length cs1) - 1)" by simp
  from Cons.IH[OF inv1 Cons.prems(2,3) hi run] len show ?case by simp
qed

text \<open>
  Claim C2, as amended. \<open>K \<ge> 1\<close> callers each insert a cycle for the agent
  \<open>a\<close> of \<open>agents\<close>, leaving \<open>iteration\<close> to the trigger; \<open>b\<close> is the value
  the trigger computes on the table before them (the prior maximum plus one, or \<open>1\<close>),
  and \<open>b, ..., b + K - 1\<close> are of the column's type. Under every schedule that lets all
  of them finish, the rows that joined the table are the rows the callers stored; there
  are \<open>j\<close> of them with \<open>1 \<le> j \<le> K\<close>, and they carry the iterations
  \<open>b, b + 1, ..., b + j - 1\<close> in the order they were written: distinct, and one
  contiguous range from the prior maximum plus one. Every caller that stored no row
  failed with \<open>unique_violation\<close>. That all \<open>K\<close> store a row is not promised.
\<close>

theorem concurrent_cycles_contiguous_range:
  assumes "agent_exists (agents s) a"
      and "cs \<noteq> []"
      and "list_all (record_call a) cs"
      and "int4 (next_value (agent_loops s) a)"
      and "int4 (next_value (agent_loops s) a + int (length cs) - 1)"
      and "interleave sched (s, cs) = (s', cs')"
      and "list_all finished cs'"
  shows "\<exists>new. agent_loops s' = agent_loops s @ new \<and>
               mset (stored cs') = mset new \<and>
               map iteration new =
                 [next_value (agent_loops s) a..
                  next_value (agent_loops s) a + int (length new) - 1] \<and>
               1 \<le> length new \<and> length new \<le> length cs \<and>
               list_all stored_or_duplicate cs'"
proof -
  let ?b = "next_value (agent_loops s) a"
  have "stored cs = []" using assms(3)
    by (induction cs)
       (auto simp: stored_def stored_row_def record_call_def split: call.splits)
  moreover from assms(3) have "list_all (race_call_ok a ?b 0) cs"
    by (auto simp: list_all_iff record_call_def race_call_ok_def split: call.splits)
  ultimately have "race_ok s a s cs []"
    by (simp add: race_ok_def)
  from interleave_race[OF this assms(1,4,5,6)]
  obtain new where inv: "race_ok s a s' cs' new" and len: "length cs' = length cs"
    by blast
  from inv have tbl: "agent_loops s' = agent_loops s @ new"
    and its: "map iteration new = [?b..?b + int (length new) - 1]"
    and ms: "mset (stored cs') = mset new"
    and calls: "list_all (race_call_ok a ?b (length new)) cs'"
    by (simp_all add: race_ok_def)
  have sd: "stored_or_duplicate c \<and> 1 \<le> length new" if c: "c \<in> set cs'" for c
  proof -
    from calls c have ok: "race_call_ok a ?b (length new) c" by (simp add: list_all_iff)
    from assms(7) c have fin: "finished c" by (simp add: list_all_iff)
    then obtain res where res: "c = Finished res" by (cases c) (simp_all add: finished_def)
    show ?thesis
    proof (cases res)
      case (Inl e)
      with ok res show ?thesis by (simp add: race_call_ok_def stored_or_duplicate_def)
    next
      case (Inr r)
      with res c have "r \<in> set (stored cs')"
        by (auto simp: stored_def stored_row_def)
      with ms have "r \<in> set new" by (metis set_mset_mset)
      then have "1 \<le> length new" by (cases new) simp_all
      with Inr res show ?thesis by (simp add: stored_or_duplicate_def)
    qed
  qed
  from assms(2) len have "cs' \<noteq> []" by auto
  then obtain c where "c \<in> set cs'" by (cases cs') auto
  with sd have one: "1 \<le> length new" by blast
  from sd have all: "list_all stored_or_duplicate cs'" by (simp add: list_all_iff)
  from race_ok_length[OF inv] length_stored_le[of cs'] len
  have le: "length new \<le> length cs" by simp
  from tbl ms its one le all show ?thesis by blast
qed

text \<open>
  Agent \<open>1\<close> has the iterations \<open>1, 2\<close>. Of three callers, the first two read the
  maximum \<open>2\<close>; the first stores \<open>3\<close>; the third reads \<open>3\<close>; the second loses;
  the third stores \<open>4\<close>.
\<close>

theorem concurrent_cycles_contiguous_range_witness:
  "(let cs = [Ready (cycle_row 1 ''p0'' ''e0''), Ready (cycle_row 1 ''p1'' ''e1''),
              Ready (cycle_row 1 ''p2'' ''e2'')];
        (s', cs') = interleave [0, 1, 0, 2, 1, 2] (two_loops_db, cs)
    in agent_exists (agents two_loops_db) 1 \<and> list_all (record_call 1) cs \<and>
       next_value (agent_loops two_loops_db) 1 = 3 \<and> int4 3 \<and> int4 (3 + int (length cs) - 1) \<and>
       list_all finished cs' \<and>
       map iteration (stored cs') = [3, 4] \<and>
       iterations_of (agent_loops s') 1 = [1, 2, 3, 4] \<and>
       (\<exists>new. agent_loops s' = agent_loops two_loops_db @ new \<and>
              mset (stored cs') = mset new \<and>
              map iteration new = [3..3 + int (length new) - 1] \<and>
              1 \<le> length new \<and> length new \<le> length cs \<and>
              list_all stored_or_duplicate cs'))"
proof -
  let ?cs = "[Ready (cycle_row 1 ''p0'' ''e0''), Ready (cycle_row 1 ''p1'' ''e1''),
              Ready (cycle_row 1 ''p2'' ''e2'')]"
  obtain s' cs' where r: "interleave [0, 1, 0, 2, 1, 2] (two_loops_db, ?cs) = (s', cs')"
    by (cases "interleave [0, 1, 0, 2, 1, 2] (two_loops_db, ?cs)")
  have h1: "agent_exists (agents two_loops_db) 1"
    by (simp add: two_loops_db_def shoes_db_def agent_exists_def)
  have h2: "?cs \<noteq> []" by simp
  have h3: "list_all (record_call 1) ?cs"
    by (simp add: record_call_def cycle_row_def)
  have nv: "next_value (agent_loops two_loops_db) 1 = 3"
    by (simp add: next_value_def two_loops_db_def shoes_db_def iterations_of_def)
  have h4: "int4 (next_value (agent_loops two_loops_db) 1)"
    by (simp add: nv int4_def)
  have h5: "int4 (next_value (agent_loops two_loops_db) 1 + int (length ?cs) - 1)"
    by (simp add: nv int4_def)
  from r have cs': "cs' =
      [Finished (Inr \<lparr>agent_id = 1, iteration = 3, plan_result = Some ''p0'',
                       execution_result = Some ''e0''\<rparr>),
       Finished (Inl unique_violation),
       Finished (Inr \<lparr>agent_id = 1, iteration = 4, plan_result = Some ''p2'',
                       execution_result = Some ''e2''\<rparr>)]"
    by (auto simp: step_def two_loops_db_def shoes_db_def cycle_row_def eval_defs)
  from r have its: "iterations_of (agent_loops s') 1 = [1, 2, 3, 4]"
    by (auto simp: step_def two_loops_db_def shoes_db_def cycle_row_def eval_defs)
  from cs' have h7: "list_all finished cs'" by (simp add: finished_def)
  from cs' have st: "map iteration (stored cs') = [3, 4]"
    by (simp add: stored_def stored_row_def)
  from concurrent_cycles_contiguous_range[OF h1 h2 h3 h4 h5 r h7] h1 h3 nv h4 h5 h7 st its r
  show ?thesis by simp
qed

text \<open>
  The claim as it is written fails when two callers both run the trigger before
  either writes: both are given iteration \<open>1\<close>, the first stores it and the second
  fails on the primary key. Two calls have yielded one iteration.
\<close>

theorem concurrent_cycles_collide:
  "(case interleave [0, 1, 0, 1]
           (shoes_db, [Ready (cycle_row 1 ''p0'' ''e0''), Ready (cycle_row 1 ''p1'' ''e1'')]) of
      (s', cs') \<Rightarrow>
        cs' = [Finished (Inr \<lparr>agent_id = 1, iteration = 1, plan_result = Some ''p0'',
                               execution_result = Some ''e0''\<rparr>),
               Finished (Inl unique_violation)] \<and>
        map iteration (stored cs') = [1] \<and>
        length (stored cs') \<noteq> 2 \<and>
        iterations_of (agent_loops s') 1 = [1])"
  by (simp add: step_def shoes_db_def cycle_row_def eval_defs stored_def stored_row_def)

section \<open>The web client's route and components\<close>

subsection \<open>The route's failures\<close>

lemma POST_raises: "raises req execute \<Longrightarrow> POST req execute = something_went_wrong"
  by (auto simp: raises_def POST_def split: option.splits fetch_result.splits)

lemma POST_not_raises: "\<not> raises req execute \<Longrightarrow> status (POST req execute) = 200"
  by (auto simp: raises_def POST_def split: option.splits fetch_result.splits)

lemma handleSubmit_error_None:
  "(error (handleSubmit submitform st) = None) = accepted (submitform (requestData st))"
  by (simp add: handleSubmit_def accepted_def Let_def split: fetch_result.splits option.splits)

lemma handleSubmit_generic_error:
  assumes "POST (Some (request_json (requestData st))) execute = something_went_wrong"
  shows "error (handleSubmit (submitform_route execute) st)
           = Some (JString ''Something went wrong'') \<and>
         submitted (handleSubmit (submitform_route execute) st) = submitted st \<and>
         requestData (handleSubmit (submitform_route execute) st) = requestData st"
  using assms
  by (simp add: handleSubmit_def submitform_route_def something_went_wrong_def ok_def
        property_def truthy_def Let_def)

text \<open>
  Claim C7, as amended. Every path of the route on which something throws (the
  request's body is malformed, the backend cannot be reached, the backend's body is not
  JSON or is \<^verbatim>\<open>null\<close>) returns the one response HTTP 500
  \<^verbatim>\<open>{"error": "Something went wrong"}\<close>, and every other path returns HTTP 200: a
  failure that throws can be told from a success, the causes cannot be told from one
  another. The form then shows that error text and keeps its fields and its
  \<open>submitted\<close> flag; and whatever the server, the form is left without an error
  message only by a response that is ok and parses.
\<close>

theorem thrown_failures_one_generic_error:
  "(raises req execute \<longrightarrow> POST req execute = something_went_wrong) \<and>
   (\<not> raises req execute \<longrightarrow> status (POST req execute) = 200) \<and>
   status something_went_wrong = 500 \<and>
   (raises (Some (request_json (requestData st))) execute \<longrightarrow>
      error (handleSubmit (submitform_route execute) st) = Some (JString ''Something went wrong'') \<and>
      submitted (handleSubmit (submitform_route execute) st) = submitted st \<and>
      requestData (handleSubmit (submitform_route execute) st) = requestData st) \<and>
   (error (handleSubmit submitform st) = None) = accepted (submitform (requestData st))"
proof -
  have "status something_went_wrong = 500" by (simp add: something_went_wrong_def)
  with POST_raises[of req execute] POST_not_raises[of req execute]
    handleSubmit_generic_error[OF POST_raises, of st execute]
    handleSubmit_error_None[of submitform st]
  show ?thesis by blast
qed

text \<open>
  A malformed body is answered with the generic error, a well-formed one with HTTP 200
  when the backend answers in JSON, and an unreachable backend reaches the form as
  the generic error text.
\<close>

theorem thrown_failures_one_generic_error_witness:
  "raises None internal_server_error \<and>
   POST None internal_server_error = something_went_wrong \<and>
   \<not> raises (Some (request_json (requestData filled_form))) internal_server_error \<and>
   status (POST (Some (request_json (requestData filled_form))) internal_server_error) = 200 \<and>
   raises (Some (request_json (requestData filled_form))) (\<lambda>d. Rejected) \<and>
   error (handleSubmit (submitform_route (\<lambda>d. Rejected)) filled_form)
     = Some (JString ''Something went wrong'') \<and>
   submitted (handleSubmit (submitform_route (\<lambda>d. Rejected)) filled_form) = False"
  using thrown_failures_one_generic_error[of None internal_server_error filled_form "\<lambda>d. Rejected"]
    thrown_failures_one_generic_error
      [of "Some (request_json (requestData filled_form))" internal_server_error]
    thrown_failures_one_generic_error
      [of "Some (request_json (requestData filled_form))" "\<lambda>d. Rejected" filled_form]
  by (simp add: raises_def internal_server_error_def filled_form_def)

text \<open>
  The claim as it is written fails: a malformed body, an unreachable backend and a
  backend whose body is not JSON are three causes with one and the same response.
\<close>

theorem failure_causes_collapse:
  "POST None (\<lambda>d. Response 200 (Some (JObject [(''sessionId'', JString ''s1'')])))
     = something_went_wrong \<and>
   POST (Some (JObject [(''url'', JString ''http://example.com'')])) (\<lambda>d. Rejected)
     = something_went_wrong \<and>
   POST (Some (JObject [(''url'', JString ''http://example.com'')])) (\<lambda>d. Response 502 None)
     = something_went_wrong"
  by (simp add: POST_def)

subsection \<open>The route's response\<close>

text \<open>
  When the backend's body is an object with the four members, the route answers HTTP
  200 with exactly these four, as the backend gave them.
\<close>

lemma POST_four_fields:
  assumes "execute data = Response code (Some (JObject kvs))"
      and "map_of kvs ''sessionId'' = Some a" and "map_of kvs ''debuggingUrl'' = Some b"
      and "map_of kvs ''status'' = Some c" and "map_of kvs ''title'' = Some d"
  shows "POST (Some data) execute =
           \<lparr>status = 200,
            body = JObject [(''sessionId'', a), (''debuggingUrl'', b),
                            (''status'', c), (''title'', d)]\<rparr>"
  using assms by (simp add: POST_def members_def property_def)

text \<open>
  Claim C8, at the input where the code leaves it. The backend reports an error: HTTP
  500 with the JSON body \<^verbatim>\<open>{"detail": "Internal Server Error"}\<close>. The route does
  not read the backend's status; the body parses and has none of the four members, so
  the route answers HTTP 200 with the empty object, which is neither the four fields
  nor a failure, and the form, which does test \<^verbatim>\<open>response.ok\<close>, reports the
  submission as successful and clears its fields.
\<close>

theorem backend_error_returned_as_success:
  "POST (Some (request_json (requestData filled_form))) internal_server_error
     = \<lparr>status = 200, body = JObject []\<rparr> \<and>
   handleSubmit (submitform_route internal_server_error) filled_form
     = \<lparr>requestData = \<lparr>url = [], intent' = [], context' = []\<rparr>,
        submitted = True, loading = False, error = None\<rparr>"
  by (simp add: POST_def internal_server_error_def members_def property_def handleSubmit_def
        submitform_route_def filled_form_def ok_def Let_def)

subsection \<open>The form\<close>

text \<open>
  Claim C9. After \<open>handleSubmit\<close> the fields \<open>url\<close>, \<open>intent\<close> and
  \<open>context\<close> are empty when the response was ok (and parsed), and otherwise, on a
  response that is not ok or when \<^verbatim>\<open>fetch\<close> or \<^verbatim>\<open>response.json()\<close> threw, they
  are what they were; \<open>submitted\<close> is set when the response was ok and otherwise
  keeps its value, so it stays false on a failure; a failure leaves an error message;
  \<open>loading\<close> is cleared on every path.
\<close>

theorem handleSubmit_keeps_fields_on_failure:
  "requestData (handleSubmit submitform st) =
     (if accepted (submitform (requestData st))
      then \<lparr>url = [], intent' = [], context' = []\<rparr>
      else requestData st) \<and>
   submitted (handleSubmit submitform st) =
     (accepted (submitform (requestData st)) \<or> submitted st) \<and>
   (error (handleSubmit submitform st) = None) = accepted (submitform (requestData st)) \<and>
   loading (handleSubmit submitform st) = False"
  by (simp add: handleSubmit_def accepted_def Let_def split: fetch_result.splits option.splits)

subsection \<open>The metrics\<close>

text \<open>
  Claim C10. What the component renders is one card for each entry of the
  \<open>metrics\<close> prop, in the prop's order, with the entry's key, title and value,
  whenever a prop is supplied: no card for the empty array. With no prop it renders the
  four cards of the mock list: Completion Rate, Steps to completion, Error Rate and
  Recommendation, in this order, with the mock values. The data displayed is the prop
  itself when one is supplied and the mock list when it is undefined, and never
  anything else.
\<close>

theorem Metrics_prop_or_mock:
  "Metrics (Some ms) =
     map (\<lambda>m. \<lparr>card_key = id'' m, metricTitle = title m, metricValue = value' m\<rparr>) ms \<and>
   Metrics (Some []) = [] \<and>
   Metrics None =
     [\<lparr>card_key = 1, metricTitle = ''Completion Rate'', metricValue = Text ''0%''\<rparr>,
      \<lparr>card_key = 2, metricTitle = ''Steps to completion'', metricValue = Number 20\<rparr>,
      \<lparr>card_key = 4, metricTitle = ''Error Rate'', metricValue = Text ''0%''\<rparr>,
      \<lparr>card_key = 3, metricTitle = ''Recommendation'',
        metricValue = Text ''We recommend you do this!''\<rparr>] \<and>
   Metrics (Some (m # ms)) =
     \<lparr>card_key = id'' m, metricTitle = title m, metricValue = value' m\<rparr> # Metrics (Some ms) \<and>
   dataDisplayed (Some ms) = ms \<and>
   dataDisplayed None = mockData \<and>
   map title mockData =
     [''Completion Rate'', ''Steps to completion'', ''Error Rate'', ''Recommendation''] \<and>
   ((\<exists>ms'. metrics = Some ms' \<and> dataDisplayed metrics = ms') \<or>
    (metrics = None \<and> dataDisplayed metrics = mockData))"
proof -
  have supplied: "Metrics (Some xs) =
      map (\<lambda>m. \<lparr>card_key = id'' m, metricTitle = title m, metricValue = value' m\<rparr>) xs"
    for xs by (simp add: Metrics_def dataDisplayed_def)
  have mock: "Metrics None =
     [\<lparr>card_key = 1, metricTitle = ''Completion Rate'', metricValue = Text ''0%''\<rparr>,
      \<lparr>card_key = 2, metricTitle = ''Steps to completion'', metricValue = Number 20\<rparr>,
      \<lparr>card_key = 4, metricTitle = ''Error Rate'', metricValue = Text ''0%''\<rparr>,
      \<lparr>card_key = 3, metricTitle = ''Recommendation'',
        metricValue = Text ''We recommend you do this!''\<rparr>]"
    by (simp add: Metrics_def dataDisplayed_def mockData_def)
  have titles: "map title mockData =
     [''Completion Rate'', ''Steps to completion'', ''Error Rate'', ''Recommendation'']"
    by (simp add: mockData_def)
  have which: "(\<exists>ms'. metrics = Some ms' \<and> dataDisplayed metrics = ms') \<or>
    (metrics = None \<and> dataDisplayed metrics = mockData)"
    by (cases metrics) (simp_all add: dataDisplayed_def)
  from supplied[of ms] supplied[of "m # ms"] supplied[of "[]"] mock titles which
  show ?thesis by (simp add: dataDisplayed_def)
qed

end
